theory Spec2Isabelle
  imports Main "HOL-Library.Char_ord" "HOL-Library.Sublist"
begin

section \<open>JavaScript strings\<close>

text \<open>
  A JavaScript string is a sequence of code units. The model takes \<^typ>\<open>string\<close>, so a
  code unit is a \<^typ>\<open>char\<close> with a value below 256 (ASCII and Latin-1); larger code
  units are outside the model. Among these code units the white space and line terminators
  that \<^verbatim>\<open>String.prototype.trim\<close> and the class escape \<^verbatim>\<open>\s\<close> recognise are TAB, LF,
  VT, FF, CR, SPACE and NBSP.
\<close>

definition in_range :: "char \<Rightarrow> char \<Rightarrow> char \<Rightarrow> bool" where
  "in_range lo hi c = (lo \<le> c \<and> c \<le> hi)"

definition isWhiteSpace :: "char \<Rightarrow> bool" where
  "isWhiteSpace c = (c \<in> set [CHR 0x09, CHR 0x0A, CHR 0x0B, CHR 0x0C, CHR 0x0D, CHR 0x20, CHR 0xA0])"

definition isDigit :: "char \<Rightarrow> bool" where
  "isDigit c = in_range CHR ''0'' CHR ''9'' c"

definition isWordChar :: "char \<Rightarrow> bool" where
  "isWordChar c = (in_range CHR ''a'' CHR ''z'' c \<or> in_range CHR ''A'' CHR ''Z'' c
     \<or> in_range CHR ''0'' CHR ''9'' c \<or> c = CHR ''_'')"

definition toUpper :: "char \<Rightarrow> char" where
  "toUpper c = (if in_range CHR ''a'' CHR ''z'' c then char_of (of_char c - (32::nat)) else c)"

definition toLower :: "char \<Rightarrow> char" where
  "toLower c = (if in_range CHR ''A'' CHR ''Z'' c then char_of (of_char c + (32::nat)) else c)"

text \<open>\<^verbatim>\<open>s.trim()\<close>\<close>

definition trim :: "string \<Rightarrow> string" where
  "trim s = rev (dropWhile isWhiteSpace (rev (dropWhile isWhiteSpace s)))"

text \<open>\<^verbatim>\<open>s.split(sep)\<close> for a separator of one code unit; the result is never empty.\<close>

fun split_on :: "char \<Rightarrow> string \<Rightarrow> string list" where
  "split_on sep [] = [[]]"
| "split_on sep (c # cs) =
     (if c = sep then [] # split_on sep cs
      else (case split_on sep cs of p # ps \<Rightarrow> (c # p) # ps | [] \<Rightarrow> [[c]]))"

text \<open>\<^verbatim>\<open>s.includes(t)\<close>: \<open>t\<close> occurs in \<open>s\<close> as a contiguous substring.\<close>

fun js_includes :: "string \<Rightarrow> string \<Rightarrow> bool" where
  "js_includes [] t = (t = [])"
| "js_includes (c # cs) t = (prefix t (c # cs) \<or> js_includes cs t)"

section \<open>Regular expressions\<close>

text \<open>
  The patterns of the source use character classes, sequence, alternation, greedy and lazy
  quantifiers, capturing groups, positive lookahead, \<^verbatim>\<open>\b\<close> and \<^verbatim>\<open>$\<close> (without the
  multiline flag). \<open>CharClass neg A\<close> is the class with members \<open>A\<close>, inverted when
  \<open>neg\<close> holds; \<open>Repeat greedy min max r\<close> is a quantifier, \<open>max = None\<close> meaning no bound.
\<close>

datatype class_atom = Single char | Range char char | ClassDigit | ClassWord | ClassSpace

datatype regex =
    Empty
  | CharClass bool "class_atom list"
  | Seq regex regex
  | Alt regex regex
  | Repeat bool nat "nat option" regex
  | Group nat regex
  | Lookahead regex
  | WordBoundary
  | EndOfInput

text \<open>
  A match state is the input split at the current end index (\<open>left\<close> holds the code units
  before it, nearest first; \<open>right\<close> those from it on), with the captures made so far.
\<close>

record mstate =
  left :: string
  right :: string
  caps :: "(nat \<times> string) list"

fun atom_mem :: "class_atom \<Rightarrow> char \<Rightarrow> bool" where
  "atom_mem (Single a) c = (c = a)"
| "atom_mem (Range lo hi) c = in_range lo hi c"
| "atom_mem ClassDigit c = isDigit c"
| "atom_mem ClassWord c = isWordChar c"
| "atom_mem ClassSpace c = isWhiteSpace c"

text \<open>
  Membership of a code unit in a class. Under the flag \<^verbatim>\<open>i\<close> a code unit matches when
  its canonical form (its upper case) is the canonical form of a member, that is when the
  code unit or its other case is a member. \<open>toUpper\<close> and \<open>toLower\<close> change ASCII
  letters only: the patterns of the source that carry the flag have ASCII letters, white
  space and punctuation as members, and the canonical form of a code unit above 127 is
  never an ASCII code unit, so the case of the other letters does not matter to them.
\<close>

definition class_mem :: "bool \<Rightarrow> class_atom list \<Rightarrow> char \<Rightarrow> bool" where
  "class_mem ic A c =
     (if ic then list_ex (\<lambda>a. atom_mem a c \<or> atom_mem a (toUpper c) \<or> atom_mem a (toLower c)) A
      else list_ex (\<lambda>a. atom_mem a c) A)"

fun groups :: "regex \<Rightarrow> nat list" where
  "groups (Seq a b) = groups a @ groups b"
| "groups (Alt a b) = groups a @ groups b"
| "groups (Repeat g mn mx r) = groups r"
| "groups (Group n r) = n # groups r"
| "groups (Lookahead r) = groups r"
| "groups _ = []"

fun rsize :: "regex \<Rightarrow> nat" where
  "rsize (Seq a b) = Suc (rsize a + rsize b)"
| "rsize (Alt a b) = Suc (rsize a + rsize b)"
| "rsize (Repeat g mn mx r) = Suc (rsize r)"
| "rsize (Group n r) = Suc (rsize r)"
| "rsize (Lookahead r) = Suc (rsize r)"
| "rsize _ = 0"

fun dec :: "nat option \<Rightarrow> nat option" where
  "dec None = None"
| "dec (Some m) = Some (m - 1)"

definition isWordAt :: "string \<Rightarrow> bool" where
  "isWordAt s = (case s of [] \<Rightarrow> False | c # _ \<Rightarrow> isWordChar c)"

text \<open>
  The backtracking matcher, as the list of the states in which a pattern can end when
  started in \<open>x\<close>, in the order in which backtracking tries them: the head of the list is
  the match the engine reports. A quantifier whose minimum is reached gives up an iteration
  that consumed nothing; a lookahead keeps only its first success and restores the end
  index.
\<close>

function ms :: "bool \<Rightarrow> regex \<Rightarrow> mstate \<Rightarrow> mstate list" where
  "ms ic Empty x = [x]"
| "ms ic (CharClass neg A) x =
     (case right x of [] \<Rightarrow> []
      | ch # r \<Rightarrow> if class_mem ic A ch \<noteq> neg then [x\<lparr>left := ch # left x, right := r\<rparr>] else [])"
| "ms ic (Seq r1 r2) x = concat (map (ms ic r2) (ms ic r1 x))"
| "ms ic (Alt r1 r2) x = ms ic r1 x @ ms ic r2 x"
| "ms ic (Repeat g mn mx r) x =
     (if mx = Some 0 then [x]
      else let xr = x\<lparr>caps := filter (\<lambda>(k, _). k \<notin> set (groups r)) (caps x)\<rparr>;
               d = (\<lambda>y. if mn = 0 \<and> \<not> length (right y) < length (right x) then []
                         else ms ic (Repeat g (mn - 1) (dec mx) r) y);
               it = concat (map d (ms ic r xr))
           in if mn \<noteq> 0 then it else if g then it @ [x] else x # it)"
| "ms ic (Group n r) x =
     map (\<lambda>y. y\<lparr>caps := (n, take (length (right x) - length (right y)) (right x)) # caps y\<rparr>)
       (ms ic r x)"
| "ms ic (Lookahead r) x = (case ms ic r x of [] \<Rightarrow> [] | y # _ \<Rightarrow> [x\<lparr>caps := caps y\<rparr>])"
| "ms ic WordBoundary x = (if isWordAt (left x) \<noteq> isWordAt (right x) then [x] else [])"
| "ms ic EndOfInput x = (if right x = [] then [x] else [])"
  by pat_completeness auto
termination
  apply (relation "inv_image (measure id <*lex*> measure id <*lex*> measure id)
    (\<lambda>(ic, r, x). (rsize r, (case r of Repeat g mn mx r' \<Rightarrow> mn | _ \<Rightarrow> 0), length (right x)))")
  apply auto
  done

text \<open>
  \<^verbatim>\<open>text.match(re)\<close> for a pattern without the flag \<^verbatim>\<open>g\<close>: the match is tried at index
  0, 1, ... up to the length of the input; the first index with a match gives the result,
  none gives \<^verbatim>\<open>null\<close>. In a result, \<open>matched\<close> is element 0 and \<open>captures\<close> holds the
  groups that took part.
\<close>

record match_result =
  matched :: string
  captures :: "(nat \<times> string) list"

fun exec_from :: "bool \<Rightarrow> regex \<Rightarrow> string \<Rightarrow> string \<Rightarrow> match_result option" where
  "exec_from ic r l [] =
     (case ms ic r \<lparr>left = l, right = [], caps = []\<rparr> of
        y # _ \<Rightarrow> Some \<lparr>matched = [], captures = caps y\<rparr>
      | [] \<Rightarrow> None)"
| "exec_from ic r l (c # cs) =
     (case ms ic r \<lparr>left = l, right = c # cs, caps = []\<rparr> of
        y # _ \<Rightarrow> Some \<lparr>matched = take (length (c # cs) - length (right y)) (c # cs),
                        captures = caps y\<rparr>
      | [] \<Rightarrow> exec_from ic r (c # l) cs)"

definition js_match :: "bool \<Rightarrow> regex \<Rightarrow> string \<Rightarrow> match_result option" where
  "js_match ic r text = exec_from ic r [] text"

text \<open>Element \<open>n\<close> of a match result, \<open>None\<close> for \<^verbatim>\<open>undefined\<close>.\<close>

definition capture :: "match_result \<Rightarrow> nat \<Rightarrow> string option" where
  "capture m n = map_of (captures m) n"

text \<open>
  \<^verbatim>\<open>s.split(re)\<close> for a pattern without capturing groups: \<open>piece\<close> is the part read since
  the last separator (nearest first). At each index the pattern is tried at exactly that
  index; a match that ends where the current piece starts is skipped.
\<close>

function split_loop :: "regex \<Rightarrow> string \<Rightarrow> string \<Rightarrow> string \<Rightarrow> string list" where
  "split_loop r l piece [] = [rev piece]"
| "split_loop r l piece (c # cs) =
     (case ms False r \<lparr>left = l, right = c # cs, caps = []\<rparr> of
        [] \<Rightarrow> split_loop r (c # l) (c # piece) cs
      | y # _ \<Rightarrow>
          (let n = length (c # cs) - length (right y) in
           if n = 0 \<and> piece = [] then split_loop r (c # l) (c # piece) cs
           else rev piece # split_loop r (rev (take n (c # cs)) @ l) [] (drop n (c # cs))))"
  by pat_completeness auto
termination
  apply (relation "inv_image (measure id <*lex*> measure id)
    (\<lambda>(r, l, piece, rest). (length rest, length piece))")
  apply auto
  done

definition split_re :: "regex \<Rightarrow> string \<Rightarrow> string list" where
  "split_re r s =
     (if s = [] then (case ms False r \<lparr>left = [], right = [], caps = []\<rparr> of [] \<Rightarrow> [[]] | _ \<Rightarrow> [])
      else split_loop r [] [] s)"

subsection \<open>Pattern notation\<close>

definition chr :: "char \<Rightarrow> regex" where
  "chr c = CharClass False [Single c]"

definition seq :: "regex list \<Rightarrow> regex" where
  "seq rs = foldr Seq rs Empty"

definition lit :: "string \<Rightarrow> regex" where
  "lit s = seq (map chr s)"

definition alts :: "regex list \<Rightarrow> regex" where
  "alts rs = foldr Alt (butlast rs) (last rs)"

definition star :: "regex \<Rightarrow> regex" where
  "star r = Repeat True 0 None r"

definition plus :: "regex \<Rightarrow> regex" where
  "plus r = Repeat True 1 None r"

definition opt :: "regex \<Rightarrow> regex" where
  "opt r = Repeat True 0 (Some 1) r"

definition times :: "nat \<Rightarrow> regex \<Rightarrow> regex" where
  "times n r = Repeat True n (Some n) r"

subsection \<open>Classes used by the source\<close>

definition space :: regex where
  "space = CharClass False [ClassSpace]"

definition digit :: regex where
  "digit = CharClass False [ClassDigit]"

definition word :: regex where
  "word = CharClass False [ClassWord]"

definition notNewline :: regex where
  "notNewline = CharClass True [Single CHR 0x0A]"

definition anyChar :: regex where
  "anyChar = CharClass True []"

section \<open>The resume field extractor\<close>

datatype js_error = TypeError | ReferenceError

record resume =
  name :: string
  email :: string
  phone :: string
  experience :: "string list"
  education :: "string list"
  skills :: "string list"

text \<open>\<^verbatim>\<open>/\b[A-Za-z0-9._%+-]+@[A-Za-z0-9.-]+\.[A-Z|a-z]{2,}\b/\<close>\<close>

definition emailRe :: regex where
  "emailRe = seq
     [WordBoundary,
      plus (CharClass False [Range CHR ''A'' CHR ''Z'', Range CHR ''a'' CHR ''z'',
        Range CHR ''0'' CHR ''9'', Single CHR ''.'', Single CHR ''_'', Single CHR ''%'',
        Single CHR ''+'', Single CHR ''-'']),
      chr CHR ''@'',
      plus (CharClass False [Range CHR ''A'' CHR ''Z'', Range CHR ''a'' CHR ''z'',
        Range CHR ''0'' CHR ''9'', Single CHR ''.'', Single CHR ''-'']),
      chr CHR ''.'',
      Repeat True 2 None (CharClass False [Range CHR ''A'' CHR ''Z'', Single CHR ''|'',
        Range CHR ''a'' CHR ''z'']),
      WordBoundary]"

text \<open>\<^verbatim>\<open>/(\+?\d{1,2}\s?)?\(?\d{3}\)?[\s.-]?\d{3}[\s.-]?\d{4}\b/\<close>\<close>

definition phoneRe :: regex where
  "phoneRe = seq
     [opt (Group 1 (seq [opt (chr CHR ''+''), Repeat True 1 (Some 2) digit, opt space])),
      opt (chr CHR ''(''),
      times 3 digit,
      opt (chr CHR '')''),
      opt (CharClass False [ClassSpace, Single CHR ''.'', Single CHR ''-'']),
      times 3 digit,
      opt (CharClass False [ClassSpace, Single CHR ''.'', Single CHR ''-'']),
      times 4 digit,
      WordBoundary]"

text \<open>
  The three section patterns differ in their headings only:
  \<^verbatim>\<open>/(h1|h2|h3):?\s*([^]+?)(?=\n\w+:|$)/i\<close>.
\<close>

definition sectionRe :: "string list \<Rightarrow> regex" where
  "sectionRe headings = seq
     [Group 1 (alts (map lit headings)),
      opt (chr CHR '':''),
      star space,
      Group 2 (Repeat False 1 None anyChar),
      Lookahead (Alt (seq [chr CHR 0x0A, plus word, chr CHR '':'']) EndOfInput)]"

definition skillsRe :: regex where
  "skillsRe = sectionRe [''skills'', ''technical skills'', ''key skills'']"

definition expRe :: regex where
  "expRe = sectionRe [''experience'', ''work history'', ''employment history'']"

definition eduRe :: regex where
  "eduRe = sectionRe [''education'', ''academic background'', ''qualifications'']"

text \<open>
  The separator of skill tokens: a comma, a semicolon or one of the three code units
  U+00E2, U+20AC, U+00A2 that the source file has in the class, repeated, then white space.
  U+20AC is not a \<^typ>\<open>char\<close> and cannot occur in an input of the model.
\<close>

definition sepRe :: regex where
  "sepRe = seq
     [plus (CharClass False [Single CHR '','', Single CHR '';'', Single CHR 0xE2, Single CHR 0xA2]),
      star space]"

text \<open>The lines of a matched section after its first line: \<^verbatim>\<open>m[0].split('\n').slice(1)\<close>.\<close>

definition sectionLines :: "match_result \<Rightarrow> string list" where
  "sectionLines m = drop 1 (split_on CHR 0x0A (matched m))"

definition extractResumeData :: "string \<Rightarrow> js_error + resume" where
  "extractResumeData text =
     (let lines = filter (\<lambda>line. trim line \<noteq> []) (split_on CHR 0x0A text) in
      case lines of
        [] \<Rightarrow> Inl TypeError
      | line0 # _ \<Rightarrow>
         (let nm = trim line0;
              emailMatch = js_match False emailRe text;
              em = (case emailMatch of Some m \<Rightarrow> matched m | None \<Rightarrow> []);
              phoneMatch = js_match False phoneRe text;
              ph = (case phoneMatch of Some m \<Rightarrow> matched m | None \<Rightarrow> []);
              skillsSection = js_match True skillsRe text;
              sk = (case skillsSection of
                      Some m \<Rightarrow>
                        map trim
                          (filter (\<lambda>skill. trim skill \<noteq> [] \<and> length (trim skill) > 2)
                            (concat (map (split_re sepRe) (sectionLines m))))
                    | None \<Rightarrow> []);
              expSection = js_match True expRe text;
              ex = (case expSection of
                      Some m \<Rightarrow>
                        map trim
                          (filter (\<lambda>line. trim line \<noteq> [] \<and> length (trim line) > 10)
                            (sectionLines m))
                    | None \<Rightarrow> []);
              eduSection = js_match True eduRe text;
              ed = (case eduSection of
                      Some m \<Rightarrow>
                        map trim
                          (filter (\<lambda>line. trim line \<noteq> [] \<and> length (trim line) > 10)
                            (sectionLines m))
                    | None \<Rightarrow> [])
          in Inr \<lparr>name = nm, email = em, phone = ph,
                  experience = (if ex \<noteq> [] then ex else [''Various professional experiences'']),
                  education = (if ed \<noteq> [] then ed else [''Relevant educational background'']),
                  skills = (if sk \<noteq> [] then sk else [''Various professional skills''])\<rparr>))"

section \<open>The job description analyser\<close>

record job =
  company :: string
  role :: string
  requirements :: "string list"

text \<open>\<^verbatim>\<open>/at\s+([A-Z][a-zA-Z0-9\s-]*)/i\<close>\<close>

definition companyAtRe :: regex where
  "companyAtRe = seq
     [lit ''at'', plus space,
      Group 1 (seq [CharClass False [Range CHR ''A'' CHR ''Z''],
        star (CharClass False [Range CHR ''a'' CHR ''z'', Range CHR ''A'' CHR ''Z'',
          Range CHR ''0'' CHR ''9'', ClassSpace, Single CHR ''-''])])]"

text \<open>\<^verbatim>\<open>/company:\s*([^\n]+)/i\<close>\<close>

definition companyLabelRe :: regex where
  "companyLabelRe = seq [lit ''company:'', star space, Group 1 (plus notNewline)]"

text \<open>\<^verbatim>\<open>/about\s+([A-Z][a-zA-Z0-9\s-]*)/i\<close>\<close>

definition companyAboutRe :: regex where
  "companyAboutRe = seq
     [lit ''about'', plus space,
      Group 1 (seq [CharClass False [Range CHR ''A'' CHR ''Z''],
        star (CharClass False [Range CHR ''a'' CHR ''z'', Range CHR ''A'' CHR ''Z'',
          Range CHR ''0'' CHR ''9'', ClassSpace, Single CHR ''-''])])]"

text \<open>\<^verbatim>\<open>/position:\s*([^\n]+)/i\<close>, \<^verbatim>\<open>/role:\s*([^\n]+)/i\<close>,
  \<^verbatim>\<open>/looking for a\s+([^\n]+)/i\<close>, \<^verbatim>\<open>/seeking a\s+([^\n]+)/i\<close>\<close>

definition rolePositionRe :: regex where
  "rolePositionRe = seq [lit ''position:'', star space, Group 1 (plus notNewline)]"

definition roleLabelRe :: regex where
  "roleLabelRe = seq [lit ''role:'', star space, Group 1 (plus notNewline)]"

definition roleLookingRe :: regex where
  "roleLookingRe = seq [lit ''looking for a'', plus space, Group 1 (plus notNewline)]"

definition roleSeekingRe :: regex where
  "roleSeekingRe = seq [lit ''seeking a'', plus space, Group 1 (plus notNewline)]"

text \<open>\<^verbatim>\<open>a || b\<close> on match results: a result array is truthy, \<^verbatim>\<open>null\<close> is not.\<close>

definition or_else :: "'a option \<Rightarrow> 'a option \<Rightarrow> 'a option" where
  "or_else a b = (case a of Some m \<Rightarrow> Some m | None \<Rightarrow> b)"

text \<open>
  \<^verbatim>\<open>m ? m[1].trim() : fallback\<close>; calling \<^verbatim>\<open>trim\<close> on \<^verbatim>\<open>undefined\<close> raises a
  \<^verbatim>\<open>TypeError\<close>.
\<close>

definition group1_or :: "match_result option \<Rightarrow> string \<Rightarrow> js_error + string" where
  "group1_or mo fallback =
     (case mo of
        None \<Rightarrow> Inr fallback
      | Some m \<Rightarrow> (case capture m 1 of None \<Rightarrow> Inl TypeError | Some s \<Rightarrow> Inr (trim s)))"

definition skillKeywords :: "string list" where
  "skillKeywords =
     [''JavaScript'', ''Python'', ''Java'', ''C++'', ''React'', ''Angular'',
      ''Node.js'', ''SQL'', ''NoSQL'', ''AWS'', ''Azure'', ''Docker'',
      ''Kubernetes'', ''CI/CD'', ''Agile'', ''Scrum'', ''Figma'',
      ''Photoshop'', ''Illustrator'', ''SEO'', ''SEM'', ''Google Analytics'',
      ''Email Marketing'', ''Social Media'', ''Content Creation'']"

text \<open>\<^verbatim>\<open>if (jdText.includes(key)) requirements.push(item)\<close>\<close>

definition push_if :: "string \<Rightarrow> string \<Rightarrow> string \<Rightarrow> string list \<Rightarrow> string list" where
  "push_if jdText key item reqs = (if js_includes jdText key then reqs @ [item] else reqs)"

definition buildRequirements :: "string \<Rightarrow> string list" where
  "buildRequirements jdText =
     (let r0 = [];
          r1 = push_if jdText ''experience'' ''X years of experience'' r0;
          r2 = push_if jdText ''degree'' (''Bachelor'' @ [CHR 0x27] @ ''s degree or higher'') r1;
          r3 = push_if jdText ''communication'' ''Strong communication skills'' r2;
          r4 = push_if jdText ''team'' ''Team player'' r3;
          r5 = push_if jdText ''leadership'' ''Leadership abilities'' r4
      in fold (\<lambda>skill reqs. push_if jdText skill skill reqs) skillKeywords r5)"

definition analyzeJobDescription :: "string \<Rightarrow> js_error + job" where
  "analyzeJobDescription jdText =
     (let companyMatch =
            or_else (js_match True companyAtRe jdText)
              (or_else (js_match True companyLabelRe jdText)
                (js_match True companyAboutRe jdText));
          roleMatch =
            or_else (js_match True rolePositionRe jdText)
              (or_else (js_match True roleLabelRe jdText)
                (or_else (js_match True roleLookingRe jdText)
                  (js_match True roleSeekingRe jdText)));
          reqs = buildRequirements jdText
      in case group1_or companyMatch ''the company'' of
           Inl e \<Rightarrow> Inl e
         | Inr co \<Rightarrow>
            (case group1_or roleMatch ''the position'' of
               Inl e \<Rightarrow> Inl e
             | Inr ro \<Rightarrow>
                 Inr \<lparr>company = co, role = ro,
                      requirements = (if reqs \<noteq> [] then reqs else [''Various skills and experiences''])\<rparr>))"

section \<open>The extractors over the store of RegExp objects\<close>

text \<open>
  Evaluating a regular expression literal creates a new RegExp object each time the literal
  is reached. Such an object is mutable: besides its pattern and flags it has the property
  \<^verbatim>\<open>lastIndex\<close>, which starts at 0. The store is the sequence of the RegExp objects
  created so far, in the order of their creation; a reference to an object is its position
  in the store. The literals of the source carry the flag \<^verbatim>\<open>i\<close> or no flag at all, so
  the objects of the model have no flag \<^verbatim>\<open>g\<close> or \<^verbatim>\<open>y\<close>.
\<close>

record regexp =
  source :: regex
  ignoreCase :: bool
  lastIndex :: nat

type_synonym store = "regexp list"

text \<open>The literal \<^verbatim>\<open>/r/\<close> or \<^verbatim>\<open>/r/i\<close>: the new object is added, its reference returned.\<close>

definition new_regexp :: "regex \<Rightarrow> bool \<Rightarrow> store \<Rightarrow> nat \<times> store" where
  "new_regexp r ic st = (length st, st @ [\<lparr>source = r, ignoreCase = ic, lastIndex = 0\<rparr>])"

text \<open>
  \<^verbatim>\<open>s.match(re)\<close> where \<open>ref\<close> is the reference that \<^verbatim>\<open>re\<close> holds. For an object
  without the flags \<^verbatim>\<open>g\<close> and \<^verbatim>\<open>y\<close> the search reads the pattern and the flag of the
  object, starts at index 0 whatever \<^verbatim>\<open>lastIndex\<close> holds, and assigns nothing. Every
  reference of the program comes from a literal and names an object; for a position that
  names none the model answers \<^verbatim>\<open>null\<close>.
\<close>

definition match_st :: "string \<Rightarrow> nat \<Rightarrow> store \<Rightarrow> match_result option \<times> store" where
  "match_st s ref st =
     (if ref < length st then (js_match (ignoreCase (st ! ref)) (source (st ! ref)) s, st)
      else (None, st))"

text \<open>
  \<^verbatim>\<open>s.split(re)\<close> for a separator object without flags, as the one of the source: the
  pattern of the object is read; the copy with the flag \<^verbatim>\<open>y\<close> on which \<^verbatim>\<open>split\<close> works
  is private to the call and the object itself is left as it is.
\<close>

definition split_st :: "string \<Rightarrow> nat \<Rightarrow> store \<Rightarrow> string list \<times> store" where
  "split_st s ref st =
     (if ref < length st then (split_re (source (st ! ref)) s, st) else ([s], st))"

text \<open>\<^verbatim>\<open>s.match(/r/)\<close> and \<^verbatim>\<open>s.split(/r/)\<close> with the literal written in place.\<close>

definition match_literal :: "regex \<Rightarrow> bool \<Rightarrow> string \<Rightarrow> store \<Rightarrow> match_result option \<times> store" where
  "match_literal r ic s st = (let (ref, st1) = new_regexp r ic st in match_st s ref st1)"

definition split_literal :: "regex \<Rightarrow> string \<Rightarrow> store \<Rightarrow> string list \<times> store" where
  "split_literal r s st = (let (ref, st1) = new_regexp r False st in split_st s ref st1)"

text \<open>
  \<^verbatim>\<open>lines.flatMap(line => line.split(/r/))\<close>: the literal is in the body of the callback and
  is evaluated once for each line.
\<close>

fun flatMap_split :: "regex \<Rightarrow> string list \<Rightarrow> store \<Rightarrow> string list \<times> store" where
  "flatMap_split r [] st = ([], st)"
| "flatMap_split r (line # lines) st =
     (let (parts, st1) = split_literal r line st;
          (rest, st2) = flatMap_split r lines st1
      in (parts @ rest, st2))"

text \<open>\<^verbatim>\<open>a || b\<close> on match results: \<^verbatim>\<open>b\<close> is evaluated only when \<^verbatim>\<open>a\<close> is \<^verbatim>\<open>null\<close>.\<close>

definition or_else_st ::
  "(store \<Rightarrow> 'a option \<times> store) \<Rightarrow> (store \<Rightarrow> 'a option \<times> store) \<Rightarrow> store \<Rightarrow> 'a option \<times> store" where
  "or_else_st a b st = (case a st of (Some m, st1) \<Rightarrow> (Some m, st1) | (None, st1) \<Rightarrow> b st1)"

text \<open>
  The two extractors, statement by statement, with the store passed along. Their bodies
  name no variable of the module and call only methods of strings and arrays, so the RegExp
  objects are the only mutable objects, other than their own arrays, that they reach.
\<close>

definition extractResumeData_st :: "string \<Rightarrow> store \<Rightarrow> (js_error + resume) \<times> store" where
  "extractResumeData_st text st =
     (let lines = filter (\<lambda>line. trim line \<noteq> []) (split_on CHR 0x0A text) in
      case lines of
        [] \<Rightarrow> (Inl TypeError, st)
      | line0 # _ \<Rightarrow>
         (let nm = trim line0;
              (emailMatch, st1) = match_literal emailRe False text st;
              em = (case emailMatch of Some m \<Rightarrow> matched m | None \<Rightarrow> []);
              (phoneMatch, st2) = match_literal phoneRe False text st1;
              ph = (case phoneMatch of Some m \<Rightarrow> matched m | None \<Rightarrow> []);
              (skillsSection, st3) = match_literal skillsRe True text st2;
              (sk, st4) = (case skillsSection of
                      Some m \<Rightarrow>
                        (let (toks, st') = flatMap_split sepRe (sectionLines m) st3
                         in (map trim
                               (filter (\<lambda>skill. trim skill \<noteq> [] \<and> length (trim skill) > 2) toks),
                             st'))
                    | None \<Rightarrow> ([], st3));
              (expSection, st5) = match_literal expRe True text st4;
              ex = (case expSection of
                      Some m \<Rightarrow>
                        map trim
                          (filter (\<lambda>line. trim line \<noteq> [] \<and> length (trim line) > 10)
                            (sectionLines m))
                    | None \<Rightarrow> []);
              (eduSection, st6) = match_literal eduRe True text st5;
              ed = (case eduSection of
                      Some m \<Rightarrow>
                        map trim
                          (filter (\<lambda>line. trim line \<noteq> [] \<and> length (trim line) > 10)
                            (sectionLines m))
                    | None \<Rightarrow> [])
          in (Inr \<lparr>name = nm, email = em, phone = ph,
                  experience = (if ex \<noteq> [] then ex else [''Various professional experiences'']),
                  education = (if ed \<noteq> [] then ed else [''Relevant educational background'']),
                  skills = (if sk \<noteq> [] then sk else [''Various professional skills''])\<rparr>,
              st6)))"

definition analyzeJobDescription_st :: "string \<Rightarrow> store \<Rightarrow> (js_error + job) \<times> store" where
  "analyzeJobDescription_st jdText st =
     (let (companyMatch, st1) =
            or_else_st (match_literal companyAtRe True jdText)
              (or_else_st (match_literal companyLabelRe True jdText)
                (match_literal companyAboutRe True jdText)) st;
          (roleMatch, st2) =
            or_else_st (match_literal rolePositionRe True jdText)
              (or_else_st (match_literal roleLabelRe True jdText)
                (or_else_st (match_literal roleLookingRe True jdText)
                  (match_literal roleSeekingRe True jdText))) st1;
          reqs = buildRequirements jdText
      in case group1_or companyMatch ''the company'' of
           Inl e \<Rightarrow> (Inl e, st2)
         | Inr co \<Rightarrow>
            (case group1_or roleMatch ''the position'' of
               Inl e \<Rightarrow> (Inl e, st2)
             | Inr ro \<Rightarrow>
                 (Inr \<lparr>company = co, role = ro,
                      requirements = (if reqs \<noteq> [] then reqs else [''Various skills and experiences''])\<rparr>,
                  st2)))"

section \<open>The request handlers\<close>

text \<open>
  Values of a parsed JSON body, as far as the handlers inspect them; \<open>JSObject\<close> stands
  for any object or function, whose contents no modelled handler reads.
\<close>

datatype jsval = JSUndefined | JSNull | JSBool bool | JSNumber int | JSString string | JSObject

fun truthy :: "jsval \<Rightarrow> bool" where
  "truthy JSUndefined = False"
| "truthy JSNull = False"
| "truthy (JSBool b) = b"
| "truthy (JSNumber n) = (n \<noteq> 0)"
| "truthy (JSString s) = (s \<noteq> [])"
| "truthy JSObject = True"

text \<open>
  What a handler does to the outside: the entries it hands to the logger (level and
  message) and the payment ids it asks the payment gateway for.
\<close>

record world =
  logged :: "(string \<times> string) list"
  fetched :: "jsval list"

definition logger :: "string \<Rightarrow> string \<Rightarrow> world \<Rightarrow> world" where
  "logger level msg w = w\<lparr>logged := logged w @ [(level, msg)]\<rparr>"

text \<open>
  \<open>Failure status error message\<close> is the error object sent with a status code; the list
  of validator errors that the 400 response of \<^verbatim>\<open>/analyze-jd\<close> also carries and the
  field \<^verbatim>\<open>details\<close> that a 500 response has in a development configuration are left
  out. \<open>Success d\<close> is \<^verbatim>\<open>{success: true, data: d}\<close>.
\<close>

datatype 'a response = Failure nat string string | Success 'a

text \<open>The outcome of a middleware: it calls \<^verbatim>\<open>next()\<close> or it sends a response.\<close>

datatype outcome = Next | Respond nat string string

text \<open>
  The identifiers bound at the top level of the module: its \<^verbatim>\<open>const\<close> and
  \<^verbatim>\<open>function\<close> declarations. The two mongoose models \<^verbatim>\<open>RequestLog\<close> and
  \<^verbatim>\<open>Payment\<close> are commented out in the source and are not bound. The last six names are
  the globals of the runtime that the module uses.
\<close>

definition moduleNames :: "string list" where
  "moduleNames =
     [''express'', ''multer'', ''pdf'', ''mammoth'', ''axios'', ''cors'', ''bodyParser'',
      ''rateLimit'', ''winston'', ''body'', ''validationResult'', ''Razorpay'', ''mongoose'',
      ''app'', ''PORT'', ''GEMINI_API_KEY'', ''RAZORPAY_KEY_ID'', ''RAZORPAY_KEY_SECRET'',
      ''MONGODB_URI'', ''ALLOWED_FILE_TYPES'', ''razorpay'', ''logger'', ''limiter'',
      ''storage'', ''upload'', ''verifyPayment'', ''extractResumeData'',
      ''analyzeJobDescription'', ''generateCoverLetter'',
      ''require'', ''process'', ''module'', ''Date'', ''Error'', ''undefined'']"

definition moduleScope :: "string \<rightharpoonup> jsval" where
  "moduleScope = map_of (map (\<lambda>n. (n, JSObject)) moduleNames)"

text \<open>Reading an identifier: an unbound one raises a \<^verbatim>\<open>ReferenceError\<close>.\<close>

definition resolve :: "(string \<rightharpoonup> jsval) \<Rightarrow> string \<Rightarrow> js_error + jsval" where
  "resolve scope ident = (case scope ident of None \<Rightarrow> Inl ReferenceError | Some v \<Rightarrow> Inr v)"

subsection \<open>\<^verbatim>\<open>verifyPayment\<close>\<close>

record payment_request =
  paymentId :: jsval
  promoCode :: jsval
  resumeEmail :: jsval

record payment =
  payment_status :: string

text \<open>
  \<open>gateway\<close> is \<^verbatim>\<open>razorpay.payments.fetch\<close>: it yields a payment or fails. The
  \<open>more\<close> part of the request record stands for every other field of the request.
\<close>

definition paymentFailed :: "world \<Rightarrow> outcome \<times> world" where
  "paymentFailed w =
     (Respond 500 ''Payment verification failed'' ''Could not verify your payment'',
      logger ''error'' ''Payment verification failed:'' w)"

definition verifyPayment ::
  "(jsval \<Rightarrow> js_error + payment) \<Rightarrow> 'a payment_request_scheme \<Rightarrow> world \<Rightarrow> outcome \<times> world" where
  "verifyPayment gateway req w =
     (if promoCode req = JSString ''070605''
      then (Next, logger ''info'' ''Promo code used for free access'' w)
      else if \<not> truthy (paymentId req)
      then (Respond 403 ''Payment required'' ''Please complete payment to generate cover letter'', w)
      else
        (let w1 = w\<lparr>fetched := fetched w @ [paymentId req]\<rparr> in
         case gateway (paymentId req) of
           Inl e \<Rightarrow> paymentFailed w1
         | Inr p \<Rightarrow>
             if payment_status p \<noteq> ''captured''
             then (Respond 403 ''Payment not completed'' ''Your payment was not successful'', w1)
             else (case resolve moduleScope ''Payment'' of
                     Inl e \<Rightarrow> paymentFailed w1
                   | Inr _ \<Rightarrow> (Next, w1))))"

subsection \<open>\<^verbatim>\<open>POST /analyze-jd\<close>\<close>

text \<open>
  The field \<^verbatim>\<open>jobDescription\<close> of the body is a string or is missing (\<open>None\<close>); other
  JSON values are outside the model. The validator \<^verbatim>\<open>isLength({min: 20})\<close> reads a
  missing field as the empty string.
\<close>

definition isLength :: "nat \<Rightarrow> string option \<Rightarrow> bool" where
  "isLength mn field = (mn \<le> length (case field of None \<Rightarrow> [] | Some s \<Rightarrow> s))"

text \<open>
  The scope of the handler body: the module scope and the handler's own
  \<^verbatim>\<open>req\<close>, \<^verbatim>\<open>res\<close>, \<^verbatim>\<open>errors\<close> and \<^verbatim>\<open>jobDescription\<close>.
\<close>

definition analyzeJdScope :: "string \<Rightarrow> (string \<rightharpoonup> jsval)" where
  "analyzeJdScope jobDescription =
     moduleScope(''req'' \<mapsto> JSObject, ''res'' \<mapsto> JSObject, ''errors'' \<mapsto> JSObject,
       ''jobDescription'' \<mapsto> JSString jobDescription)"

text \<open>
  \<^verbatim>\<open>analyzeJobDescription(v)\<close> for an argument read from a scope: a value without a method
  \<^verbatim>\<open>match\<close> raises a \<^verbatim>\<open>TypeError\<close>.
\<close>

definition callAnalyze :: "jsval \<Rightarrow> js_error + job" where
  "callAnalyze v = (case v of JSString s \<Rightarrow> analyzeJobDescription s | _ \<Rightarrow> Inl TypeError)"

definition analyzeJdFailed :: "world \<Rightarrow> job response \<times> world" where
  "analyzeJdFailed w =
     (Failure 500 ''Error analyzing job description'' ''Could not process the job description'',
      logger ''error'' ''JD analysis error:'' w)"

definition analyzeJdHandler :: "string option \<Rightarrow> world \<Rightarrow> job response \<times> world" where
  "analyzeJdHandler field w =
     (if \<not> isLength 20 field
      then (Failure 400 ''Invalid job description''
              ''Job description must be at least 20 characters long'',
            logger ''warn'' ''Invalid job description'' w)
      else
        (let jobDescription = (case field of None \<Rightarrow> [] | Some s \<Rightarrow> s) in
         case resolve (analyzeJdScope jobDescription) ''jdText'' of
           Inl e \<Rightarrow> analyzeJdFailed w
         | Inr v \<Rightarrow>
            (case callAnalyze v of
               Inl e \<Rightarrow> analyzeJdFailed w
             | Inr jdData \<Rightarrow>
                 (Success jdData, logger ''info'' ''Job description analyzed successfully'' w))))"

section \<open>Notions used to state the properties\<close>

text \<open>The state reached from \<open>x\<close> by reading \<open>k\<close> code units.\<close>

definition adv :: "nat \<Rightarrow> mstate \<Rightarrow> mstate" where
  "adv k x = x\<lparr>left := rev (take k (right x)) @ left x, right := drop k (right x)\<rparr>"

text \<open>The code units a class matches, its inversion taken into account.\<close>

definition accepts :: "bool \<Rightarrow> bool \<Rightarrow> class_atom list \<Rightarrow> char \<Rightarrow> bool" where
  "accepts ic neg A c = (class_mem ic A c \<noteq> neg)"

text \<open>The state in which a match is tried at index \<open>i\<close> of \<open>text\<close>.\<close>

definition state_at :: "string \<Rightarrow> nat \<Rightarrow> mstate" where
  "state_at text i = \<lparr>left = rev (take i text), right = drop i text, caps = []\<rparr>"

text \<open>
  The checks of the requirement list in the order of the source: the substring looked for
  and the entry appended when it is present.
\<close>

definition requirementChecks :: "(string \<times> string) list" where
  "requirementChecks =
     [(''experience'', ''X years of experience''),
      (''degree'', ''Bachelor'' @ [CHR 0x27] @ ''s degree or higher''),
      (''communication'', ''Strong communication skills''),
      (''team'', ''Team player''),
      (''leadership'', ''Leadership abilities'')]
     @ map (\<lambda>k. (k, k)) skillKeywords"

text \<open>
  \<open>ci_prefix p s\<close>: \<open>s\<close> starts with \<open>p\<close> up to the case of ASCII letters, which is how
  a literal of a pattern with the flag \<^verbatim>\<open>i\<close> matches. \<open>headingAt hs text i\<close>: one of the
  headings \<open>hs\<close> starts at index \<open>i\<close> of the text; \<open>noHeadingBefore hs text i\<close>: none
  starts at an index below \<open>i\<close>.
\<close>

definition ci_prefix :: "string \<Rightarrow> string \<Rightarrow> bool" where
  "ci_prefix p s = prefix (map toUpper p) (map toUpper s)"

definition headingAt :: "string list \<Rightarrow> string \<Rightarrow> nat \<Rightarrow> bool" where
  "headingAt headings text i = list_ex (\<lambda>h. ci_prefix h (drop i text)) headings"

definition noHeadingBefore :: "string list \<Rightarrow> string \<Rightarrow> nat \<Rightarrow> bool" where
  "noHeadingBefore headings text i = list_all (\<lambda>j. \<not> headingAt headings text j) [0..<i]"

text \<open>The headings of the skills pattern.\<close>

definition skillsHeadings :: "string list" where
  "skillsHeadings = [''skills'', ''technical skills'', ''key skills'']"

text \<open>\<open>isHeading hs h\<close>: \<open>h\<close> is one of the headings \<open>hs\<close> up to the case of its letters.\<close>

definition isHeading :: "string list \<Rightarrow> string \<Rightarrow> bool" where
  "isHeading headings h = list_ex (\<lambda>k. map toUpper h = map toUpper k) headings"

text \<open>
  The email pattern as the specification describes it: a local part of letters, digits and
  \<^verbatim>\<open>._%+-\<close>, an \<^verbatim>\<open>@\<close>, a domain of letters, digits and \<^verbatim>\<open>.-\<close>, a dot, and a top-level
  part of two or more code units that satisfy \<open>tld\<close> (letters in the specification; the
  class \<^verbatim>\<open>[A-Z|a-z]\<close> of the source also has the bar). \<open>boundaryAt text i\<close>: exactly one
  of the code units before and at index \<open>i\<close> is a word character, which is what \<^verbatim>\<open>\b\<close>
  asks for. \<open>emailAt tld text i n\<close>: the \<open>n\<close> code units from index \<open>i\<close> have the shape
  of an email and are delimited by boundaries.
\<close>

definition isLetter :: "char \<Rightarrow> bool" where
  "isLetter c = (in_range CHR ''A'' CHR ''Z'' c \<or> in_range CHR ''a'' CHR ''z'' c)"

definition localChar :: "char \<Rightarrow> bool" where
  "localChar c = (isLetter c \<or> isDigit c \<or> c \<in> set ''._%+-'')"

definition domainChar :: "char \<Rightarrow> bool" where
  "domainChar c = (isLetter c \<or> isDigit c \<or> c \<in> set ''.-'')"

definition tldClassChar :: "char \<Rightarrow> bool" where
  "tldClassChar c = (isLetter c \<or> c = CHR ''|'')"

definition emailShape :: "(char \<Rightarrow> bool) \<Rightarrow> string \<Rightarrow> bool" where
  "emailShape tld s = (\<exists>l d t. s = l @ ''@'' @ d @ ''.'' @ t
     \<and> l \<noteq> [] \<and> list_all localChar l \<and> d \<noteq> [] \<and> list_all domainChar d
     \<and> 2 \<le> length t \<and> list_all tld t)"

definition boundaryAt :: "string \<Rightarrow> nat \<Rightarrow> bool" where
  "boundaryAt text i = (isWordAt (rev (take i text)) \<noteq> isWordAt (drop i text))"

definition emailAt :: "(char \<Rightarrow> bool) \<Rightarrow> string \<Rightarrow> nat \<Rightarrow> nat \<Rightarrow> bool" where
  "emailAt tld text i n = (i + n \<le> length text \<and> emailShape tld (take n (drop i text))
     \<and> boundaryAt text i \<and> boundaryAt text (i + n))"

text \<open>\<open>reads x w y\<close>: the state \<open>y\<close> is reached from \<open>x\<close> by reading the code units \<open>w\<close>.\<close>

definition reads :: "mstate \<Rightarrow> string \<Rightarrow> mstate \<Rightarrow> bool" where
  "reads x w y = (right x = w @ right y \<and> left y = rev w @ left x \<and> caps y = caps x)"

text \<open>
  \<open>returns f v\<close>: from every store the operation \<open>f\<close> gives the value \<open>v\<close> and a store
  that is the given one followed by new objects.
\<close>

definition returns :: "(store \<Rightarrow> 'a \<times> store) \<Rightarrow> 'a \<Rightarrow> bool" where
  "returns f v = (\<forall>st. \<exists>news. f st = (v, st @ news))"

section \<open>Properties of the matcher\<close>

declare ms.simps(5) [simp del]
declare ms.simps(2) [simp del]

lemma seq_Nil [simp]: "seq [] = Empty" by (simp add: seq_def)
lemma seq_Cons [simp]: "seq (r # rs) = Seq r (seq rs)" by (simp add: seq_def)

lemma adv_0 [simp]: "adv 0 x = x" by (simp add: adv_def)
lemma adv_adv [simp]: "adv a (adv b x) = adv (b + a) x"
  by (simp add: adv_def take_add add.commute[of a b])
    
lemma right_adv [simp]: "right (adv k x) = drop k (right x)" by (simp add: adv_def)
lemma left_adv [simp]: "left (adv k x) = rev (take k (right x)) @ left x" by (simp add: adv_def)
lemma caps_adv [simp]: "caps (adv k x) = caps x" by (simp add: adv_def)

lemma ms_class: "ms ic (CharClass neg A) x =
  (case right x of [] \<Rightarrow> [] | c # cs \<Rightarrow> if accepts ic neg A c then [adv 1 x] else [])"
  by (simp add: ms.simps(2) accepts_def adv_def split: list.splits)

lemma groups_class_filter [simp]: "x\<lparr>caps := filter (\<lambda>(k, _). k \<notin> set (groups (CharClass neg A))) (caps x)\<rparr> = x"
  by simp

lemma ms_Repeat_class_step:
  assumes r: "right x = c # cs" and acc: "accepts ic neg A c"
  shows "ms ic (Repeat g mn None (CharClass neg A)) x =
     (if mn \<noteq> 0 then ms ic (Repeat g (mn - 1) None (CharClass neg A)) (adv 1 x)
      else if g then ms ic (Repeat g 0 None (CharClass neg A)) (adv 1 x) @ [x]
      else x # ms ic (Repeat g 0 None (CharClass neg A)) (adv 1 x))"
  apply (subst ms.simps(5))
  apply (simp add: ms_class r acc Let_def)
  done

lemma ms_Repeat_class_stop:
  assumes "right x = [] \<or> (\<exists>c cs. right x = c # cs \<and> \<not> accepts ic neg A c)"
  shows "ms ic (Repeat g mn None (CharClass neg A)) x = (if mn \<noteq> 0 then [] else [x])"
proof -
  have e: "ms ic (CharClass neg A) x = []"
    using assms by (auto simp add: ms_class)
  show ?thesis
    apply (subst ms.simps(5))
    apply (simp add: e Let_def)
    done
qed

lemma upt_shift: "mn \<noteq> 0 \<Longrightarrow> map Suc [mn - 1 ..< n] = [mn ..< Suc n]"
  by (cases mn) (simp_all add: map_Suc_upt del: upt_Suc)

lemma upt_zero_shift: "0 # map Suc [0 ..< n] = [0 ..< Suc n]"
  by (simp add: map_Suc_upt upt_conv_Cons del: upt_Suc)

lemma map_adv_one: "map (\<lambda>k. adv k (adv 1 x)) ks = map (\<lambda>k. adv k x) (map Suc ks)"
  by (simp add: comp_def)

lemma ms_Repeat_class_lazy:
  "ms ic (Repeat False mn None (CharClass neg A)) x =
     map (\<lambda>k. adv k x) [mn ..< Suc (length (takeWhile (accepts ic neg A) (right x)))]"
proof (induction "right x" arbitrary: x mn)
  case Nil
  then have r: "right x = []" by simp
  show ?case
    by (simp add: ms_Repeat_class_stop r)
next
  case (Cons c cs)
  then have r: "right x = c # cs" by simp
  show ?case
  proof (cases "accepts ic neg A c")
    case False
    then show ?thesis
      by (simp add: ms_Repeat_class_stop r)
  next
    case True
    let ?n = "length (takeWhile (accepts ic neg A) cs)"
    have cs: "cs = right (adv 1 x)" by (simp add: r)
    have IH: "ms ic (Repeat False m None (CharClass neg A)) (adv 1 x) =
        map (\<lambda>k. adv k x) (map Suc [m ..< Suc ?n])" for m
      unfolding Cons.hyps(1)[OF cs, of m] map_adv_one by (simp add: r del: upt_Suc)
    have tw: "length (takeWhile (accepts ic neg A) (right x)) = Suc ?n"
      by (simp add: r True)
    show ?thesis
    proof (cases "mn = 0")
      case False
      have "ms ic (Repeat False mn None (CharClass neg A)) x =
          map (\<lambda>k. adv k x) (map Suc [mn - 1 ..< Suc ?n])"
        unfolding ms_Repeat_class_step[OF r True] IH using False by simp
      then show ?thesis
        unfolding tw upt_shift[OF False] .
    next
      case mn0: True
      have "ms ic (Repeat False mn None (CharClass neg A)) x =
          adv 0 x # map (\<lambda>k. adv k x) (map Suc [0 ..< Suc ?n])"
        unfolding ms_Repeat_class_step[OF r True] IH using mn0 by simp
      also have "\<dots> = map (\<lambda>k. adv k x) (0 # map Suc [0 ..< Suc ?n])"
        by (simp only: list.map)
      finally show ?thesis
        unfolding tw upt_zero_shift mn0 .
    qed
  qed
qed

lemma ms_Repeat_class_greedy:
  "ms ic (Repeat True mn None (CharClass neg A)) x =
     map (\<lambda>k. adv k x) (rev [mn ..< Suc (length (takeWhile (accepts ic neg A) (right x)))])"
proof (induction "right x" arbitrary: x mn)
  case Nil
  then have r: "right x = []" by simp
  show ?case
    by (simp add: ms_Repeat_class_stop r)
next
  case (Cons c cs)
  then have r: "right x = c # cs" by simp
  show ?case
  proof (cases "accepts ic neg A c")
    case False
    then show ?thesis
      by (simp add: ms_Repeat_class_stop r)
  next
    case True
    let ?n = "length (takeWhile (accepts ic neg A) cs)"
    have cs: "cs = right (adv 1 x)" by (simp add: r)
    have IH: "ms ic (Repeat True m None (CharClass neg A)) (adv 1 x) =
        map (\<lambda>k. adv k x) (rev (map Suc [m ..< Suc ?n]))" for m
      unfolding Cons.hyps(1)[OF cs, of m] map_adv_one rev_map by (simp add: r del: upt_Suc)
    have tw: "length (takeWhile (accepts ic neg A) (right x)) = Suc ?n"
      by (simp add: r True)
    show ?thesis
    proof (cases "mn = 0")
      case False
      have "ms ic (Repeat True mn None (CharClass neg A)) x =
          map (\<lambda>k. adv k x) (rev (map Suc [mn - 1 ..< Suc ?n]))"
        unfolding ms_Repeat_class_step[OF r True] IH using False by simp
      then show ?thesis
        unfolding tw upt_shift[OF False] .
    next
      case mn0: True
      have "ms ic (Repeat True mn None (CharClass neg A)) x =
          map (\<lambda>k. adv k x) (rev (map Suc [0 ..< Suc ?n])) @ [adv 0 x]"
        unfolding ms_Repeat_class_step[OF r True] IH using mn0 by simp
      also have "\<dots> = map (\<lambda>k. adv k x) (rev (0 # map Suc [0 ..< Suc ?n]))"
        by (simp only: list.map rev.simps map_append)
      finally show ?thesis
        unfolding tw upt_zero_shift mn0 .
    qed
  qed
qed

subsection \<open>The search for the first match\<close>

lemma exec_from_hit:
  assumes "ms ic r \<lparr>left = l, right = s, caps = []\<rparr> = y # ys"
  shows "exec_from ic r l s = Some \<lparr>matched = take (length s - length (right y)) s, captures = caps y\<rparr>"
  using assms by (cases s) simp_all

lemma exec_from_skip:
  assumes "\<forall>j<k. ms ic r \<lparr>left = rev (take j s) @ l, right = drop j s, caps = []\<rparr> = []"
    and "k \<le> length s"
  shows "exec_from ic r l s = exec_from ic r (rev (take k s) @ l) (drop k s)"
  using assms
proof (induction k arbitrary: l s)
  case 0
  then show ?case by simp
next
  case (Suc k)
  then obtain c cs where s: "s = c # cs" by (cases s) auto
  from Suc.prems(1) have "ms ic r \<lparr>left = l, right = c # cs, caps = []\<rparr> = []"
    by (auto simp: s dest: spec[of _ 0])
  then have 1: "exec_from ic r l s = exec_from ic r (c # l) cs"
    by (simp add: s)
  have "\<forall>j<k. ms ic r \<lparr>left = rev (take j cs) @ c # l, right = drop j cs, caps = []\<rparr> = []"
  proof (intro allI impI)
    fix j assume "j < k"
    then have "Suc j < Suc k" by simp
    with Suc.prems(1) have "ms ic r \<lparr>left = rev (take (Suc j) s) @ l, right = drop (Suc j) s, caps = []\<rparr> = []"
      by blast
    then show "ms ic r \<lparr>left = rev (take j cs) @ c # l, right = drop j cs, caps = []\<rparr> = []"
      by (simp add: s)
  qed
  moreover have "k \<le> length cs" using Suc.prems(2) by (simp add: s)
  ultimately have "exec_from ic r (c # l) cs = exec_from ic r (rev (take k cs) @ c # l) (drop k cs)"
    by (rule Suc.IH)
  with 1 show ?case by (simp add: s)
qed

lemma js_match_at:
  assumes "i \<le> length text"
    and "\<forall>j<i. ms ic r (state_at text j) = []"
    and "ms ic r (state_at text i) = y # ys"
  shows "js_match ic r text =
     Some \<lparr>matched = take (length text - i - length (right y)) (drop i text), captures = caps y\<rparr>"
proof -
  have "exec_from ic r [] text = exec_from ic r (rev (take i text) @ []) (drop i text)"
    using assms(1,2) by (intro exec_from_skip) (simp_all add: state_at_def)
  also have "\<dots> = Some \<lparr>matched = take (length (drop i text) - length (right y)) (drop i text), captures = caps y\<rparr>"
    using assms(3) by (intro exec_from_hit) (simp add: state_at_def)
  finally show ?thesis by (simp add: js_match_def)
qed

lemma exec_from_None_iff:
  "exec_from ic r l s = None \<longleftrightarrow>
     (\<forall>j\<le>length s. ms ic r \<lparr>left = rev (take j s) @ l, right = drop j s, caps = []\<rparr> = [])"
proof (induction s arbitrary: l)
  case Nil
  then show ?case by (simp split: list.splits)
next
  case (Cons c cs)
  show ?case
  proof (cases "ms ic r \<lparr>left = l, right = c # cs, caps = []\<rparr>")
    case Nil
    have "(\<forall>j\<le>length (c # cs). ms ic r \<lparr>left = rev (take j (c # cs)) @ l, right = drop j (c # cs), caps = []\<rparr> = [])
       \<longleftrightarrow> (\<forall>j\<le>length cs. ms ic r \<lparr>left = rev (take j cs) @ c # l, right = drop j cs, caps = []\<rparr> = [])"
      (is "?A \<longleftrightarrow> ?B")
    proof
      assume a: ?A
      show ?B
      proof (intro allI impI)
        fix j assume "j \<le> length cs"
        then have "Suc j \<le> length (c # cs)" by simp
        with a have "ms ic r \<lparr>left = rev (take (Suc j) (c # cs)) @ l, right = drop (Suc j) (c # cs), caps = []\<rparr> = []"
          by blast
        then show "ms ic r \<lparr>left = rev (take j cs) @ c # l, right = drop j cs, caps = []\<rparr> = []" by simp
      qed
    next
      assume b: ?B
      show ?A
      proof (intro allI impI)
        fix j assume j: "j \<le> length (c # cs)"
        show "ms ic r \<lparr>left = rev (take j (c # cs)) @ l, right = drop j (c # cs), caps = []\<rparr> = []"
        proof (cases j)
          case 0
          then show ?thesis using Nil by simp
        next
          case (Suc j')
          with j have "j' \<le> length cs" by simp
          with b have "ms ic r \<lparr>left = rev (take j' cs) @ c # l, right = drop j' cs, caps = []\<rparr> = []" by blast
          then show ?thesis by (simp add: Suc)
        qed
      qed
    qed
    with Nil Cons.IH[of "c # l"] show ?thesis by simp
  next
    case (Cons y ys)
    then have "\<not> (\<forall>j\<le>length (c # cs). ms ic r \<lparr>left = rev (take j (c # cs)) @ l, right = drop j (c # cs), caps = []\<rparr> = [])"
      by (auto intro!: exI[of _ 0])
    with Cons show ?thesis by simp
  qed
qed

lemma js_match_None_iff:
  "js_match ic r text = None \<longleftrightarrow> (\<forall>i\<le>length text. ms ic r (state_at text i) = [])"
  by (simp add: js_match_def exec_from_None_iff state_at_def)

lemma js_match_SomeD:
  assumes "js_match ic r text = Some m"
  shows "\<exists>i y ys. i \<le> length text \<and> (\<forall>j<i. ms ic r (state_at text j) = [])
     \<and> ms ic r (state_at text i) = y # ys
     \<and> m = \<lparr>matched = take (length text - i - length (right y)) (drop i text), captures = caps y\<rparr>"
proof -
  from assms have "\<not> (\<forall>i\<le>length text. ms ic r (state_at text i) = [])"
    by (simp add: js_match_None_iff[symmetric])
  then have ex: "\<exists>i. i \<le> length text \<and> ms ic r (state_at text i) \<noteq> []" by blast
  define i where "i = (LEAST i. i \<le> length text \<and> ms ic r (state_at text i) \<noteq> [])"
  have i: "i \<le> length text \<and> ms ic r (state_at text i) \<noteq> []"
    unfolding i_def using ex by (rule LeastI_ex)
  have least: "\<forall>j<i. ms ic r (state_at text j) = []"
  proof (intro allI impI)
    fix j assume "j < i"
    then have "\<not> (j \<le> length text \<and> ms ic r (state_at text j) \<noteq> [])"
      unfolding i_def by (rule not_less_Least)
    moreover have "j \<le> length text" using \<open>j < i\<close> i by simp
    ultimately show "ms ic r (state_at text j) = []" by simp
  qed
  from i obtain y ys where y: "ms ic r (state_at text i) = y # ys"
    by (cases "ms ic r (state_at text i)") auto
  from js_match_at[OF _ least y] i assms show ?thesis
    using least y by auto
qed

subsection \<open>Captures\<close>

lemma ms_seq_snoc:
  "y \<in> set (ms ic (seq (rs @ [r])) x) \<Longrightarrow> \<exists>x'. y \<in> set (ms ic r x')"
proof (induction rs arbitrary: x)
  case Nil
  then show ?case by auto
next
  case (Cons a rs)
  then show ?case by auto
qed

lemma caps_of_Group:
  "y \<in> set (ms ic (Group n r) x) \<Longrightarrow> \<exists>s. map_of (caps y) n = Some s"
  by auto

lemma last_group_captured:
  assumes "js_match ic (seq (rs @ [Group n r])) t = Some m"
  shows "\<exists>s. capture m n = Some s"
proof -
  from js_match_SomeD[OF assms] obtain i y ys where
    y: "ms ic (seq (rs @ [Group n r])) (state_at t i) = y # ys" and m: "captures m = caps y"
    by auto
  from y have "y \<in> set (ms ic (seq (rs @ [Group n r])) (state_at t i))" by simp
  then obtain x' where "y \<in> set (ms ic (Group n r) x')" by (blast dest: ms_seq_snoc)
  then show ?thesis unfolding capture_def m by (rule caps_of_Group)
qed

lemma seq3_group_captured:
  assumes "js_match ic (seq [a, b, Group n r]) t = Some m"
  shows "\<exists>s. capture m n = Some s"
  using last_group_captured[of ic "[a, b]" n r t m] assms by simp

lemma or_else_Some: "or_else a b = Some m \<Longrightarrow> a = Some m \<or> b = Some m"
  by (cases a) (simp_all add: or_else_def)

lemma company_captured:
  assumes "or_else (js_match True companyAtRe t)
      (or_else (js_match True companyLabelRe t) (js_match True companyAboutRe t)) = Some m"
  shows "\<exists>s. capture m 1 = Some s"
proof -
  have "js_match True companyAtRe t = Some m \<or> js_match True companyLabelRe t = Some m
     \<or> js_match True companyAboutRe t = Some m"
    using assms by (blast dest: or_else_Some)
  then show ?thesis
    unfolding companyAtRe_def companyLabelRe_def companyAboutRe_def
    by (blast dest: seq3_group_captured)
qed

lemma role_captured:
  assumes "or_else (js_match True rolePositionRe t)
      (or_else (js_match True roleLabelRe t)
        (or_else (js_match True roleLookingRe t) (js_match True roleSeekingRe t))) = Some m"
  shows "\<exists>s. capture m 1 = Some s"
proof -
  have "js_match True rolePositionRe t = Some m \<or> js_match True roleLabelRe t = Some m
     \<or> js_match True roleLookingRe t = Some m \<or> js_match True roleSeekingRe t = Some m"
    using assms by (blast dest: or_else_Some)
  then show ?thesis
    unfolding rolePositionRe_def roleLabelRe_def roleLookingRe_def roleSeekingRe_def
    by (blast dest: seq3_group_captured)
qed

lemma group1_or_total:
  assumes "\<And>m. mo = Some m \<Longrightarrow> \<exists>s. capture m 1 = Some s"
  shows "\<exists>v. group1_or mo fb = Inr v"
proof (cases mo)
  case None
  then show ?thesis by (simp add: group1_or_def)
next
  case (Some m)
  with assms obtain s where "capture m 1 = Some s" by blast
  with Some show ?thesis by (simp add: group1_or_def)
qed

lemma analyzeJobDescription_total:
  "\<exists>co ro. analyzeJobDescription t =
     Inr \<lparr>company = co, role = ro,
          requirements = (if buildRequirements t \<noteq> [] then buildRequirements t
                          else [''Various skills and experiences''])\<rparr>"
proof -
  let ?cm = "or_else (js_match True companyAtRe t)
      (or_else (js_match True companyLabelRe t) (js_match True companyAboutRe t))"
  let ?rm = "or_else (js_match True rolePositionRe t)
      (or_else (js_match True roleLabelRe t)
        (or_else (js_match True roleLookingRe t) (js_match True roleSeekingRe t)))"
  have "\<exists>v. group1_or ?cm ''the company'' = Inr v"
    by (rule group1_or_total) (rule company_captured)
  then obtain co where co: "group1_or ?cm ''the company'' = Inr co" ..
  have "\<exists>v. group1_or ?rm ''the position'' = Inr v"
    by (rule group1_or_total) (rule role_captured)
  then obtain ro where ro: "group1_or ?rm ''the position'' = Inr ro" ..
  have "analyzeJobDescription t =
     Inr \<lparr>company = co, role = ro,
          requirements = (if buildRequirements t \<noteq> [] then buildRequirements t
                          else [''Various skills and experiences''])\<rparr>"
    by (simp only: analyzeJobDescription_def Let_def co ro sum.case)
  then show ?thesis by blast
qed

lemma fold_push_if:
  "fold (\<lambda>skill reqs. push_if t skill skill reqs) ks acc = acc @ filter (js_includes t) ks"
  by (induction ks arbitrary: acc) (simp_all add: push_if_def)

lemma buildRequirements_eq:
  "buildRequirements t = map snd (filter (\<lambda>(key, item). js_includes t key) requirementChecks)"
  unfolding buildRequirements_def Let_def fold_push_if requirementChecks_def
  by (simp add: push_if_def filter_map comp_def)

subsection \<open>Code units and classes\<close>

lemma in_range_nat:
  "in_range lo hi c \<longleftrightarrow> (of_char lo :: nat) \<le> of_char c \<and> (of_char c :: nat) \<le> of_char hi"
  by (simp add: in_range_def less_eq_char_def)

lemma char_eq_nat: "c = d \<longleftrightarrow> (of_char c :: nat) = of_char d"
  by simp

lemma toUpper_nat:
  "(of_char (toUpper c) :: nat) =
     (if 97 \<le> (of_char c :: nat) \<and> (of_char c :: nat) \<le> 122 then of_char c - 32 else of_char c)"
proof -
  have "(of_char c :: nat) - 32 < 256"
    using nat_of_char_less_256[of c] by arith
  then show ?thesis
    by (simp add: toUpper_def in_range_nat)
qed

lemma toLower_nat:
  "(of_char (toLower c) :: nat) =
     (if 65 \<le> (of_char c :: nat) \<and> (of_char c :: nat) \<le> 90 then of_char c + 32 else of_char c)"
  by (simp add: toLower_def in_range_nat)

lemma accepts_single_ci:
  "accepts True False [Single a] c \<longleftrightarrow> toUpper c = toUpper a"
proof -
  define n :: nat where "n = of_char c"
  define m :: nat where "m = of_char a"
  have "accepts True False [Single a] c \<longleftrightarrow> (c = a \<or> toUpper c = a \<or> toLower c = a)"
    by (simp add: accepts_def class_mem_def)
  also have "\<dots> \<longleftrightarrow> (n = m \<or> (of_char (toUpper c) :: nat) = m \<or> (of_char (toLower c) :: nat) = m)"
    unfolding n_def m_def by simp
  also have "\<dots> \<longleftrightarrow> (of_char (toUpper c) :: nat) = of_char (toUpper a)"
    unfolding toUpper_nat toLower_nat n_def[symmetric] m_def[symmetric] by arith
  also have "\<dots> \<longleftrightarrow> toUpper c = toUpper a"
    by simp
  finally show ?thesis .
qed

lemma isWhiteSpace_nat:
  "isWhiteSpace c \<longleftrightarrow> (of_char c :: nat) \<in> {9, 10, 11, 12, 13, 32, 160}"
proof -
  have "isWhiteSpace c \<longleftrightarrow> c \<in> {CHR 0x09, CHR 0x0A, CHR 0x0B, CHR 0x0C, CHR 0x0D, CHR 0x20, CHR 0xA0}"
    by (simp add: isWhiteSpace_def)
  also have "\<dots> \<longleftrightarrow> (of_char c :: nat) \<in> of_char ` {CHR 0x09, CHR 0x0A, CHR 0x0B, CHR 0x0C, CHR 0x0D, CHR 0x20, CHR 0xA0}"
    by (simp only: inj_image_mem_iff[OF inj_of_char])
  also have "\<dots> \<longleftrightarrow> (of_char c :: nat) \<in> {9, 10, 11, 12, 13, 32, 160}"
    by simp
  finally show ?thesis .
qed

lemma isWordChar_nat:
  "isWordChar c \<longleftrightarrow> (97 \<le> (of_char c :: nat) \<and> (of_char c :: nat) \<le> 122)
     \<or> (65 \<le> (of_char c :: nat) \<and> (of_char c :: nat) \<le> 90)
     \<or> (48 \<le> (of_char c :: nat) \<and> (of_char c :: nat) \<le> 57) \<or> (of_char c :: nat) = 95"
proof -
  have "c = CHR ''_'' \<longleftrightarrow> (of_char c :: nat) = of_char CHR ''_''"
    by (simp only: of_char_eq_iff)
  then show ?thesis
    unfolding isWordChar_def in_range_nat by simp
qed

lemma accepts_space_ci: "accepts ic False [ClassSpace] c \<longleftrightarrow> isWhiteSpace c"
proof -
  define n :: nat where "n = of_char c"
  have "accepts ic False [ClassSpace] c \<longleftrightarrow>
      (if ic then isWhiteSpace c \<or> isWhiteSpace (toUpper c) \<or> isWhiteSpace (toLower c) else isWhiteSpace c)"
    by (simp add: accepts_def class_mem_def)
  also have "\<dots> \<longleftrightarrow> isWhiteSpace c"
    unfolding isWhiteSpace_nat toUpper_nat toLower_nat n_def[symmetric]
    by (simp del: of_char_eq_iff) arith
  finally show ?thesis .
qed

lemma accepts_word_ci: "accepts ic False [ClassWord] c \<longleftrightarrow> isWordChar c"
proof -
  define n :: nat where "n = of_char c"
  have "accepts ic False [ClassWord] c \<longleftrightarrow>
      (if ic then isWordChar c \<or> isWordChar (toUpper c) \<or> isWordChar (toLower c) else isWordChar c)"
    by (simp add: accepts_def class_mem_def)
  also have "\<dots> \<longleftrightarrow> isWordChar c"
    unfolding isWordChar_nat toUpper_nat toLower_nat n_def[symmetric]
    by (simp del: of_char_eq_iff) arith
  finally show ?thesis .
qed

lemma accepts_any: "accepts ic True [] c"
  by (simp add: accepts_def class_mem_def)

lemma toUpper_newline: "toUpper c = CHR 0x0A \<longleftrightarrow> c = CHR 0x0A"
proof -
  define n :: nat where "n = of_char c"
  have "toUpper c = CHR 0x0A \<longleftrightarrow> (of_char (toUpper c) :: nat) = of_char CHR 0x0A"
    by (simp only: of_char_eq_iff)
  also have "\<dots> \<longleftrightarrow> n = 10"
    unfolding toUpper_nat n_def[symmetric] by simp arith
  also have "\<dots> \<longleftrightarrow> c = CHR 0x0A"
    unfolding n_def by (simp add: char_eq_nat[of c])
  finally show ?thesis .
qed

subsection \<open>Literals, headings and optional classes\<close>

lemma lit_Nil [simp]: "lit [] = Empty" by (simp add: lit_def)
lemma lit_Cons [simp]: "lit (a # h) = Seq (chr a) (lit h)" by (simp add: lit_def)

lemma ms_chr: "ms ic (chr a) x =
  (case right x of [] \<Rightarrow> [] | c # cs \<Rightarrow> if accepts ic False [Single a] c then [adv 1 x] else [])"
  by (simp add: chr_def ms_class)

lemma ci_prefix_Nil [simp]: "ci_prefix [] s" by (simp add: ci_prefix_def)
lemma ci_prefix_Cons_Nil [simp]: "\<not> ci_prefix (a # h) []" by (simp add: ci_prefix_def)
lemma ci_prefix_Cons_Cons:
  "ci_prefix (a # h) (c # cs) \<longleftrightarrow> toUpper c = toUpper a \<and> ci_prefix h cs"
  by (auto simp add: ci_prefix_def)

lemma ms_lit_ci:
  "ms True (lit h) x = (if ci_prefix h (right x) then [adv (length h) x] else [])"
proof (induction h arbitrary: x)
  case Nil
  then show ?case by simp
next
  case (Cons a h)
  show ?case
  proof (cases "right x")
    case Nil
    then show ?thesis by (simp add: ms_chr)
  next
    case (Cons c cs)
    then show ?thesis
      by (simp add: ms_chr accepts_single_ci Cons.IH ci_prefix_Cons_Cons)
  qed
qed

lemma alts_simps [simp]: "alts [r] = r" "alts (r # r' # rs) = Alt r (alts (r' # rs))"
  by (simp_all add: alts_def)

lemma ms_alts_lit_Nil:
  "headings \<noteq> [] \<Longrightarrow> \<not> headingAt headings text i \<Longrightarrow> i \<le> length text \<Longrightarrow>
     ms True (alts (map lit headings)) (state_at text i) = []"
proof (induction headings rule: list_nonempty_induct)
  case (single h)
  then show ?case by (simp add: headingAt_def ms_lit_ci state_at_def)
next
  case (cons h hs)
  then obtain h' hs' where hs: "hs = h' # hs'" by (cases hs) auto
  from cons show ?case
    by (simp add: headingAt_def ms_lit_ci state_at_def hs)
qed

lemma ms_opt_class:
  "ms ic (opt (CharClass neg A)) x =
     (case right x of [] \<Rightarrow> [x]
      | c # cs \<Rightarrow> if accepts ic neg A c then [adv 1 x, x] else [x])"
proof -
  have z: "ms ic (Repeat True 0 (Some 0) (CharClass neg A)) y = [y]" for y
    by (subst ms.simps(5)) simp
  show ?thesis
    unfolding opt_def
    apply (subst ms.simps(5))
    apply (simp add: ms_class Let_def z split: list.splits)
    done
qed

lemma upper_skills: "map toUpper ''skills'' = ''SKILLS''" by code_simp
lemma upper_Skills: "map toUpper ''Skills'' = ''SKILLS''" by code_simp
lemma upper_technical: "map toUpper ''technical skills'' = ''TECHNICAL SKILLS''" by code_simp
lemma upper_key: "map toUpper ''key skills'' = ''KEY SKILLS''" by code_simp

lemma skills_heading_here:
  assumes "right x = ''Skills'' @ r"
  shows "ms True (Group 1 (alts (map lit [''skills'', ''technical skills'', ''key skills'']))) x =
     [(adv 6 x)\<lparr>caps := (1, ''Skills'') # caps x\<rparr>]"
proof -
  have 1: "ci_prefix ''skills'' (right x)"
    unfolding ci_prefix_def assms map_append upper_skills upper_Skills by simp
  have 2: "\<not> ci_prefix ''technical skills'' (right x)"
    unfolding ci_prefix_def assms map_append upper_technical upper_Skills by simp
  have 3: "\<not> ci_prefix ''key skills'' (right x)"
    unfolding ci_prefix_def assms map_append upper_key upper_Skills by simp
  have "ms True (alts (map lit [''skills'', ''technical skills'', ''key skills''])) x = [adv 6 x]"
    using 1 2 3 by (simp add: ms_lit_ci eval_nat_numeral del: lit_Cons)
  then show ?thesis
    by (simp add: assms)
qed

lemma takeWhile_run:
  assumes "list_all P ws" and "rest = [] \<or> \<not> P (hd rest)"
  shows "takeWhile P (ws @ rest) = ws"
proof -
  have "takeWhile P rest = []" using assms(2) by (cases rest) auto
  with assms(1) show ?thesis by (simp add: takeWhile_append2 list_all_iff)
qed

lemma ms_star_space_first:
  assumes "right x = ws @ rest" and "list_all isWhiteSpace ws" and "rest = [] \<or> \<not> isWhiteSpace (hd rest)"
  shows "\<exists>zs. ms True (star space) x = adv (length ws) x # zs"
proof -
  have acc: "accepts True False [ClassSpace] = isWhiteSpace"
    by (rule ext) (rule accepts_space_ci)
  have tw: "takeWhile isWhiteSpace (right x) = ws"
    unfolding assms(1) using assms(2,3) by (rule takeWhile_run)
  have "ms True (star space) x = map (\<lambda>k. adv k x) (rev [0 ..< Suc (length ws)])"
    unfolding star_def space_def ms_Repeat_class_greedy acc tw ..
  then show ?thesis by simp
qed

lemma ms_plus_word_first:
  assumes "right x = w @ rest" and "list_all isWordChar w" and "rest = [] \<or> \<not> isWordChar (hd rest)"
    and "w \<noteq> []"
  shows "\<exists>zs. ms True (plus word) x = adv (length w) x # zs"
proof -
  have acc: "accepts True False [ClassWord] = isWordChar"
    by (rule ext) (rule accepts_word_ci)
  have tw: "takeWhile isWordChar (right x) = w"
    unfolding assms(1) using assms(2,3) by (rule takeWhile_run)
  have "ms True (plus word) x = map (\<lambda>k. adv k x) (rev [1 ..< Suc (length w)])"
    unfolding plus_def word_def ms_Repeat_class_greedy acc tw ..
  moreover have "0 < length w" using assms(4) by simp
  ultimately show ?thesis by simp
qed

lemma ms_Seq_first:
  assumes "ms ic a x = z # zs" and "\<exists>y ys. ms ic b z = y # ys \<and> P y"
  shows "\<exists>y ys. ms ic (Seq a b) x = y # ys \<and> P y"
  using assms by auto

lemma concat_map_skip:
  assumes "\<forall>k\<in>set ks. f k = []"
  shows "concat (map f (ks @ ks')) = concat (map f ks')"
  using assms by (induction ks) simp_all

lemma ms_Lookahead_Nil: "ms ic r x = [] \<Longrightarrow> ms ic (Lookahead r) x = []"
  by simp

lemma ms_Lookahead_Cons: "ms ic r x = y # ys \<Longrightarrow> ms ic (Lookahead r) x = [x\<lparr>caps := caps y\<rparr>]"
  by simp

text \<open>The lookahead of the section patterns.\<close>

lemma section_lookahead_fails:
  assumes "right z = c # cs" and "c \<noteq> CHR 0x0A"
  shows "ms True (Alt (seq [chr CHR 0x0A, plus word, chr CHR '':'']) EndOfInput) z = []"
proof -
  have "toUpper c \<noteq> CHR 0x0A"
    using assms(2) by (simp add: toUpper_newline)
  moreover have "toUpper CHR 0x0A = CHR 0x0A" by (simp add: toUpper_newline)
  ultimately show ?thesis
    using assms(1) by (simp add: ms_chr accepts_single_ci)
qed

lemma section_lookahead_holds:
  assumes "right z = [] \<or> (\<exists>w rest. right z = CHR 0x0A # w @ CHR '':'' # rest \<and> w \<noteq> [] \<and> list_all isWordChar w)"
  shows "ms True (Alt (seq [chr CHR 0x0A, plus word, chr CHR '':'']) EndOfInput) z \<noteq> []"
proof (cases "right z = []")
  case True
  then show ?thesis by simp
next
  case False
  with assms obtain w rest where r: "right z = CHR 0x0A # w @ CHR '':'' # rest"
    and w: "w \<noteq> []" "list_all isWordChar w" by blast
  have nl: "ms True (chr CHR 0x0A) z = [adv 1 z]"
    by (simp add: ms_chr r accepts_single_ci)
  have colon: "\<not> isWordChar CHR '':''"
    by (simp add: isWordChar_def in_range_def)
  have "right (adv 1 z) = w @ (CHR '':'' # rest)"
    by (simp add: r)
  then obtain zs where pw: "ms True (plus word) (adv 1 z) = adv (length w) (adv 1 z) # zs"
    using ms_plus_word_first[of "adv 1 z" w "CHR '':'' # rest"] w colon by auto
  have "right (adv (length w) (adv 1 z)) = CHR '':'' # rest"
    by (simp add: r)
  then have c: "ms True (chr CHR '':'') (adv (length w) (adv 1 z)) = [adv 1 (adv (length w) (adv 1 z))]"
    by (simp add: ms_chr accepts_single_ci del: adv_adv)
  have "ms True (seq [chr CHR 0x0A, plus word, chr CHR '':'']) z \<noteq> []"
    by (simp add: nl pw c del: adv_adv One_nat_def)
  then show ?thesis by simp
qed

subsection \<open>The first match of a section pattern\<close>

lemma upt_split3:
  assumes "a \<le> t" and "t < n"
  shows "[a ..< n] = [a ..< t] @ t # [Suc t ..< n]"
proof -
  have "[a ..< n] = [a ..< t] @ [t ..< n]"
    using assms upt_add_eq_append[of a t "n - t"] by simp
  also have "[t ..< n] = t # [Suc t ..< n]"
    using assms(2) by (rule upt_conv_Cons)
  finally show ?thesis .
qed

lemma section_body_first:
  assumes r: "right x = toks @ follow"
    and toks: "toks \<noteq> []" "CHR 0x0A \<notin> set toks"
    and follow: "follow = [] \<or> (\<exists>w rest. follow = CHR 0x0A # w @ CHR '':'' # rest \<and> w \<noteq> [] \<and> list_all isWordChar w)"
  shows "\<exists>y ys. ms True (seq [Group 2 (Repeat False 1 None anyChar),
            Lookahead (Alt (seq [chr CHR 0x0A, plus word, chr CHR '':'']) EndOfInput)]) x = y # ys
          \<and> right y = follow"
proof -
  let ?L = "Alt (seq [chr CHR 0x0A, plus word, chr CHR '':'']) EndOfInput"
  let ?g = "\<lambda>k. (adv k x)\<lparr>caps := (2, take (length (right x) - length (right (adv k x))) (right x)) # caps (adv k x)\<rparr>"
  let ?F = "\<lambda>k. ms True (seq [Lookahead ?L]) (?g k)"
  let ?T = "length toks"
  let ?N = "length (right x)"
  have tw: "takeWhile (accepts True True []) (right x) = right x"
    by (simp add: accepts_any)
  have g2: "ms True (Group 2 (Repeat False 1 None anyChar)) x = map ?g [1 ..< Suc ?N]"
    unfolding ms.simps(6) anyChar_def ms_Repeat_class_lazy tw by (simp add: comp_def del: upt_Suc)
  have all: "ms True (seq [Group 2 (Repeat False 1 None anyChar), Lookahead ?L]) x
      = concat (map ?F [1 ..< Suc ?N])"
    unfolding seq_Cons ms.simps(3) g2 by (simp add: comp_def del: upt_Suc)
  have T: "1 \<le> ?T" "?T < Suc ?N"
    using toks(1) by (simp_all add: r Suc_le_eq)
  have split: "[1 ..< Suc ?N] = [1 ..< ?T] @ ?T # [Suc ?T ..< Suc ?N]"
    using T by (rule upt_split3)
  have early: "\<forall>k\<in>set [1 ..< ?T]. ?F k = []"
  proof
    fix k assume "k \<in> set [1 ..< ?T]"
    then have k: "k < ?T" by simp
    then have "drop k toks = toks ! k # drop (Suc k) toks"
      by (simp add: Cons_nth_drop_Suc)
    then have rk: "right (?g k) = toks ! k # (drop (Suc k) toks @ follow)"
      using k by (simp add: r)
    have "toks ! k \<noteq> CHR 0x0A"
      using k toks(2) by (metis nth_mem)
    with rk have "ms True ?L (?g k) = []"
      by (rule section_lookahead_fails)
    then have "ms True (Lookahead ?L) (?g k) = []"
      by (rule ms_Lookahead_Nil)
    then show "?F k = []" by simp
  qed
  have rT: "right (?g ?T) = follow"
    by (simp add: r)
  have "ms True ?L (?g ?T) \<noteq> []"
    by (rule section_lookahead_holds) (use rT follow in simp)
  then obtain y ys where y: "ms True ?L (?g ?T) = y # ys"
    by (cases "ms True ?L (?g ?T)") auto
  have "ms True (Lookahead ?L) (?g ?T) = [(?g ?T)\<lparr>caps := caps y\<rparr>]"
    using y by (rule ms_Lookahead_Cons)
  then have FT: "?F ?T = [(?g ?T)\<lparr>caps := caps y\<rparr>]"
    by simp
  have "concat (map ?F [1 ..< Suc ?N]) = concat (map ?F (?T # [Suc ?T ..< Suc ?N]))"
    unfolding split using early by (rule concat_map_skip)
  also have "\<dots> = (?g ?T)\<lparr>caps := caps y\<rparr> # concat (map ?F [Suc ?T ..< Suc ?N])"
    using FT by simp
  finally have "ms True (seq [Group 2 (Repeat False 1 None anyChar), Lookahead ?L]) x
      = (?g ?T)\<lparr>caps := caps y\<rparr> # concat (map ?F [Suc ?T ..< Suc ?N])"
    unfolding all .
  moreover have "right ((?g ?T)\<lparr>caps := caps y\<rparr>) = follow"
    using rT by simp
  ultimately show ?thesis by blast
qed

lemma skills_section_first:
  assumes r: "right x = ''Skills:'' @ ws @ toks @ follow"
    and ws: "list_all isWhiteSpace ws"
    and toks: "toks \<noteq> []" "\<not> isWhiteSpace (hd toks)" "CHR 0x0A \<notin> set toks"
    and follow: "follow = [] \<or> (\<exists>w rest. follow = CHR 0x0A # w @ CHR '':'' # rest \<and> w \<noteq> [] \<and> list_all isWordChar w)"
  shows "\<exists>y ys. ms True skillsRe x = y # ys \<and> right y = follow"
proof -
  let ?G1 = "Group 1 (alts (map lit [''skills'', ''technical skills'', ''key skills'']))"
  let ?L = "Alt (seq [chr CHR 0x0A, plus word, chr CHR '':'']) EndOfInput"
  let ?body = "seq [Group 2 (Repeat False 1 None anyChar), Lookahead ?L]"
  define x1 where "x1 = (adv 6 x)\<lparr>caps := (1, ''Skills'') # caps x\<rparr>"
  define x2 where "x2 = adv 1 x1"
  define x3 where "x3 = adv (length ws) x2"
  have "right x = ''Skills'' @ ('':'' @ ws @ toks @ follow)"
    by (simp add: r)
  then have s1: "ms True ?G1 x = [x1]"
    unfolding x1_def by (rule skills_heading_here)
  have r1: "right x1 = CHR '':'' # (ws @ toks @ follow)"
    by (simp add: x1_def r)
  have s2: "ms True (opt (chr CHR '':'')) x1 = [x2, x1]"
    unfolding chr_def ms_opt_class x2_def by (simp add: r1 accepts_single_ci)
  have r2: "right x2 = ws @ (toks @ follow)"
    by (simp add: x2_def r1)
  have "toks @ follow = [] \<or> \<not> isWhiteSpace (hd (toks @ follow))"
    using toks(1,2) by simp
  with r2 ws obtain zs where s3: "ms True (star space) x2 = x3 # zs"
    unfolding x3_def using ms_star_space_first[of x2 ws "toks @ follow"] by blast
  have r3: "right x3 = toks @ follow"
    by (simp add: x3_def r2)
  have b: "\<exists>y ys. ms True ?body x3 = y # ys \<and> right y = follow"
    using r3 toks(1,3) follow by (rule section_body_first)
  have c: "\<exists>y ys. ms True (Seq (star space) ?body) x2 = y # ys \<and> right y = follow"
    using s3 b by (rule ms_Seq_first)
  have d: "\<exists>y ys. ms True (Seq (opt (chr CHR '':'')) (Seq (star space) ?body)) x1 = y # ys \<and> right y = follow"
    using s2 c by (rule ms_Seq_first)
  have e: "\<exists>y ys. ms True (Seq ?G1 (Seq (opt (chr CHR '':'')) (Seq (star space) ?body))) x = y # ys \<and> right y = follow"
    using s1 d by (rule ms_Seq_first)
  have eq: "skillsRe = Seq ?G1 (Seq (opt (chr CHR '':'')) (Seq (star space) ?body))"
    by (simp add: skillsRe_def sectionRe_def del: lit_Cons alts_simps)
  show ?thesis unfolding eq by (rule e)
qed

subsection \<open>Lines and fields of the resume extractor\<close>

lemma trim_Nil_iff: "trim s = [] \<longleftrightarrow> list_all isWhiteSpace s"
proof -
  have "trim s = [] \<longleftrightarrow> (\<forall>c\<in>set (dropWhile isWhiteSpace s). isWhiteSpace c)"
    by (simp add: trim_def dropWhile_eq_Nil_conv)
  also have "\<dots> \<longleftrightarrow> dropWhile isWhiteSpace s = []"
  proof
    assume a: "\<forall>c\<in>set (dropWhile isWhiteSpace s). isWhiteSpace c"
    show "dropWhile isWhiteSpace s = []"
    proof (rule ccontr)
      assume n: "dropWhile isWhiteSpace s \<noteq> []"
      then have "\<not> isWhiteSpace (hd (dropWhile isWhiteSpace s))"
        by (rule hd_dropWhile)
      moreover have "hd (dropWhile isWhiteSpace s) \<in> set (dropWhile isWhiteSpace s)"
        using n by simp
      ultimately show False using a by blast
    qed
  next
    assume "dropWhile isWhiteSpace s = []"
    then show "\<forall>c\<in>set (dropWhile isWhiteSpace s). isWhiteSpace c"
      by (simp only: list.set ball_empty)
  qed
  also have "\<dots> \<longleftrightarrow> list_all isWhiteSpace s"
    by (simp add: dropWhile_eq_Nil_conv list_all_iff)
  finally show ?thesis .
qed

lemma split_on_nonempty: "split_on sep s \<noteq> []"
  by (induction s) (auto split: list.splits)

lemma set_split_on: "\<Union> (set ` set (split_on sep s)) = set s - {sep}"
proof (induction s)
  case Nil
  then show ?case by simp
next
  case (Cons c cs)
  obtain p ps where ps: "split_on sep cs = p # ps"
    using split_on_nonempty[of sep cs] by (cases "split_on sep cs") auto
  with Cons show ?case by auto
qed

lemma split_on_no_sep: "sep \<notin> set s \<Longrightarrow> split_on sep s = [s]"
  by (induction s) auto

lemma newline_is_space: "isWhiteSpace CHR 0x0A"
  by (simp add: isWhiteSpace_def)

lemma nonblank_lines:
  "filter (\<lambda>line. trim line \<noteq> []) (split_on CHR 0x0A text) = [] \<longleftrightarrow> list_all isWhiteSpace text"
proof -
  have "filter (\<lambda>line. trim line \<noteq> []) (split_on CHR 0x0A text) = []
      \<longleftrightarrow> (\<forall>l\<in>set (split_on CHR 0x0A text). \<forall>c\<in>set l. isWhiteSpace c)"
    by (simp add: filter_empty_conv trim_Nil_iff list_all_iff)
  also have "\<dots> \<longleftrightarrow> (\<forall>c\<in>\<Union> (set ` set (split_on CHR 0x0A text)). isWhiteSpace c)"
    by blast
  also have "\<dots> \<longleftrightarrow> (\<forall>c\<in>set text. isWhiteSpace c)"
    unfolding set_split_on using newline_is_space by auto
  finally show ?thesis by (simp add: list_all_iff)
qed

text \<open>The extractor raises exactly on the texts of white space only.\<close>

lemma extractResumeData_raises_iff:
  "extractResumeData text = Inl TypeError \<longleftrightarrow> list_all isWhiteSpace text"
proof -
  have "extractResumeData text = Inl TypeError
      \<longleftrightarrow> filter (\<lambda>line. trim line \<noteq> []) (split_on CHR 0x0A text) = []"
    by (simp add: extractResumeData_def Let_def split: list.splits)
  then show ?thesis by (simp add: nonblank_lines)
qed

lemma extractResumeData_fields:
  assumes "\<not> list_all isWhiteSpace text"
  shows "\<exists>r. extractResumeData text = Inr r
    \<and> email r = (case js_match False emailRe text of Some m \<Rightarrow> matched m | None \<Rightarrow> [])
    \<and> skills r =
        (let sk = (case js_match True skillsRe text of
                     Some m \<Rightarrow> map trim (filter (\<lambda>skill. trim skill \<noteq> [] \<and> length (trim skill) > 2)
                                 (concat (map (split_re sepRe) (sectionLines m))))
                   | None \<Rightarrow> [])
         in if sk \<noteq> [] then sk else [''Various professional skills''])
    \<and> name r \<noteq> [] \<and> experience r \<noteq> [] \<and> education r \<noteq> [] \<and> skills r \<noteq> []"
proof -
  from assms obtain l ls where ls: "filter (\<lambda>line. trim line \<noteq> []) (split_on CHR 0x0A text) = l # ls"
    using nonblank_lines[of "text"]
    by (cases "filter (\<lambda>line. trim line \<noteq> []) (split_on CHR 0x0A text)") auto
  then have "l \<in> set (filter (\<lambda>line. trim line \<noteq> []) (split_on CHR 0x0A text))"
    by simp
  then have "trim l \<noteq> []" by simp
  then show ?thesis
    by (simp add: extractResumeData_def ls Let_def)
qed

lemma skillsRe_no_heading:
  assumes "\<not> headingAt skillsHeadings text j" and "j \<le> length text"
  shows "ms True skillsRe (state_at text j) = []"
proof -
  have "ms True (alts (map lit skillsHeadings)) (state_at text j) = []"
    using _ assms by (rule ms_alts_lit_Nil) (simp add: skillsHeadings_def)
  then have "ms True (Group 1 (alts (map lit skillsHeadings))) (state_at text j) = []"
    by (simp only: ms.simps(6) list.map)
  then show ?thesis
    unfolding skillsRe_def sectionRe_def seq_Cons ms.simps(3) skillsHeadings_def
    by (simp only: list.map concat.simps)
qed

lemma take_length_append: "n = length xs \<Longrightarrow> take n (xs @ ys) = xs"
  by simp

lemma skills_match_at_heading:
  assumes tx: "text = pre @ ''Skills:'' @ ws @ toks @ follow"
    and nh: "noHeadingBefore skillsHeadings text (length pre)"
    and ws: "list_all isWhiteSpace ws"
    and toks: "toks \<noteq> []" "\<not> isWhiteSpace (hd toks)" "CHR 0x0A \<notin> set toks"
    and follow: "follow = [] \<or> (\<exists>w rest. follow = CHR 0x0A # w @ CHR '':'' # rest \<and> w \<noteq> [] \<and> list_all isWordChar w)"
  shows "\<exists>m. js_match True skillsRe text = Some m \<and> matched m = ''Skills:'' @ ws @ toks"
proof -
  let ?i = "length pre"
  have i: "?i \<le> length text" by (simp add: tx)
  have before: "\<forall>j<?i. ms True skillsRe (state_at text j) = []"
  proof (intro allI impI)
    fix j assume j: "j < ?i"
    then have "\<not> headingAt skillsHeadings text j"
      using nh by (simp add: noHeadingBefore_def list_all_iff)
    moreover have "j \<le> length text" using j i by simp
    ultimately show "ms True skillsRe (state_at text j) = []"
      by (rule skillsRe_no_heading)
  qed
  have "right (state_at text ?i) = ''Skills:'' @ ws @ toks @ follow"
    by (simp add: state_at_def tx)
  then obtain y ys where y: "ms True skillsRe (state_at text ?i) = y # ys" and ry: "right y = follow"
    using skills_section_first[OF _ ws toks follow] by blast
  have "js_match True skillsRe text =
      Some \<lparr>matched = take (length text - ?i - length (right y)) (drop ?i text), captures = caps y\<rparr>"
    using i before y by (rule js_match_at)
  moreover have "take (length text - ?i - length (right y)) (drop ?i text) = ''Skills:'' @ ws @ toks"
  proof -
    have d: "drop ?i text = (''Skills:'' @ ws @ toks) @ follow"
      by (simp add: tx)
    show ?thesis
      unfolding d by (rule take_length_append) (simp add: tx ry)
  qed
  ultimately show ?thesis by simp
qed

lemma text_not_blank:
  assumes "text = pre @ ''Skills:'' @ rest"
  shows "\<not> list_all isWhiteSpace text"
proof -
  have "\<not> isWhiteSpace CHR ''S''" by (simp add: isWhiteSpace_def)
  then show ?thesis by (simp add: assms)
qed

text \<open>The same for any heading of the skills pattern, in any case of its letters.\<close>

lemma heading_cases:
  assumes "isHeading skillsHeadings h"
  obtains (s) "map toUpper h = ''SKILLS''" "length h = 6"
    | (t) "map toUpper h = ''TECHNICAL SKILLS''" "length h = 16"
    | (k) "map toUpper h = ''KEY SKILLS''" "length h = 10"
proof -
  have len: "length h = length (map toUpper h)" by simp
  from assms consider "map toUpper h = ''SKILLS''" | "map toUpper h = ''TECHNICAL SKILLS''"
      | "map toUpper h = ''KEY SKILLS''"
    unfolding isHeading_def skillsHeadings_def list_ex_Cons_iff list_ex_Nil_iff
      upper_skills upper_technical upper_key
    by blast
  then show thesis
  proof cases
    case 1
    then show ?thesis using s len by simp
  next
    case 2
    then show ?thesis using t len by simp
  next
    case 3
    then show ?thesis using k len by simp
  qed
qed

lemma skills_alts_at_heading:
  assumes "right x = h @ r" and "isHeading skillsHeadings h"
  shows "ms True (alts (map lit [''skills'', ''technical skills'', ''key skills''])) x = [adv (length h) x]"
  using assms(2)
proof (cases rule: heading_cases)
  case s
  have 1: "ci_prefix ''skills'' (right x)"
    unfolding ci_prefix_def assms map_append upper_skills s(1) by simp
  have 2: "\<not> ci_prefix ''technical skills'' (right x)"
    unfolding ci_prefix_def assms map_append upper_technical s(1) by simp
  have 3: "\<not> ci_prefix ''key skills'' (right x)"
    unfolding ci_prefix_def assms map_append upper_key s(1) by simp
  show ?thesis
    using 1 2 3 by (simp add: ms_lit_ci s(2) eval_nat_numeral del: lit_Cons)
next
  case t
  have 1: "\<not> ci_prefix ''skills'' (right x)"
    unfolding ci_prefix_def assms map_append upper_skills t(1) by simp
  have 2: "ci_prefix ''technical skills'' (right x)"
    unfolding ci_prefix_def assms map_append upper_technical t(1) by simp
  have 3: "\<not> ci_prefix ''key skills'' (right x)"
    unfolding ci_prefix_def assms map_append upper_key t(1) by simp
  show ?thesis
    using 1 2 3 by (simp add: ms_lit_ci t(2) eval_nat_numeral del: lit_Cons)
next
  case k
  have 1: "\<not> ci_prefix ''skills'' (right x)"
    unfolding ci_prefix_def assms map_append upper_skills k(1) by simp
  have 2: "\<not> ci_prefix ''technical skills'' (right x)"
    unfolding ci_prefix_def assms map_append upper_technical k(1) by simp
  have 3: "ci_prefix ''key skills'' (right x)"
    unfolding ci_prefix_def assms map_append upper_key k(1) by simp
  show ?thesis
    using 1 2 3 by (simp add: ms_lit_ci k(2) eval_nat_numeral del: lit_Cons)
qed

lemma skills_group_at_heading:
  assumes "right x = h @ r" and "isHeading skillsHeadings h"
  shows "ms True (Group 1 (alts (map lit [''skills'', ''technical skills'', ''key skills'']))) x =
     [(adv (length h) x)\<lparr>caps := (1, h) # caps x\<rparr>]"
proof -
  have "ms True (alts (map lit [''skills'', ''technical skills'', ''key skills''])) x = [adv (length h) x]"
    using assms by (rule skills_alts_at_heading)
  then show ?thesis
    by (simp add: assms(1))
qed

lemma skills_section_at_heading:
  assumes r: "right x = h @ '':'' @ ws @ toks @ follow"
    and h: "isHeading skillsHeadings h"
    and ws: "list_all isWhiteSpace ws"
    and toks: "toks \<noteq> []" "\<not> isWhiteSpace (hd toks)" "CHR 0x0A \<notin> set toks"
    and follow: "follow = [] \<or> (\<exists>w rest. follow = CHR 0x0A # w @ CHR '':'' # rest \<and> w \<noteq> [] \<and> list_all isWordChar w)"
  shows "\<exists>y ys. ms True skillsRe x = y # ys \<and> right y = follow"
proof -
  let ?G1 = "Group 1 (alts (map lit [''skills'', ''technical skills'', ''key skills'']))"
  let ?L = "Alt (seq [chr CHR 0x0A, plus word, chr CHR '':'']) EndOfInput"
  let ?body = "seq [Group 2 (Repeat False 1 None anyChar), Lookahead ?L]"
  define x1 where "x1 = (adv (length h) x)\<lparr>caps := (1, h) # caps x\<rparr>"
  define x2 where "x2 = adv 1 x1"
  define x3 where "x3 = adv (length ws) x2"
  have s1: "ms True ?G1 x = [x1]"
    unfolding x1_def using r h by (rule skills_group_at_heading)
  have r1: "right x1 = CHR '':'' # (ws @ toks @ follow)"
    by (simp add: x1_def r)
  have s2: "ms True (opt (chr CHR '':'')) x1 = [x2, x1]"
    unfolding chr_def ms_opt_class x2_def by (simp add: r1 accepts_single_ci)
  have r2: "right x2 = ws @ (toks @ follow)"
    by (simp add: x2_def r1)
  have "toks @ follow = [] \<or> \<not> isWhiteSpace (hd (toks @ follow))"
    using toks(1,2) by simp
  with r2 ws obtain zs where s3: "ms True (star space) x2 = x3 # zs"
    unfolding x3_def using ms_star_space_first[of x2 ws "toks @ follow"] by blast
  have r3: "right x3 = toks @ follow"
    by (simp add: x3_def r2)
  have b: "\<exists>y ys. ms True ?body x3 = y # ys \<and> right y = follow"
    using r3 toks(1,3) follow by (rule section_body_first)
  have c: "\<exists>y ys. ms True (Seq (star space) ?body) x2 = y # ys \<and> right y = follow"
    using s3 b by (rule ms_Seq_first)
  have d: "\<exists>y ys. ms True (Seq (opt (chr CHR '':'')) (Seq (star space) ?body)) x1 = y # ys \<and> right y = follow"
    using s2 c by (rule ms_Seq_first)
  have e: "\<exists>y ys. ms True (Seq ?G1 (Seq (opt (chr CHR '':'')) (Seq (star space) ?body))) x = y # ys \<and> right y = follow"
    using s1 d by (rule ms_Seq_first)
  have eq: "skillsRe = Seq ?G1 (Seq (opt (chr CHR '':'')) (Seq (star space) ?body))"
    by (simp add: skillsRe_def sectionRe_def del: lit_Cons alts_simps)
  show ?thesis unfolding eq by (rule e)
qed

lemma skills_match_at_any_heading:
  assumes tx: "text = pre @ h @ '':'' @ ws @ toks @ follow"
    and h: "isHeading skillsHeadings h"
    and nh: "noHeadingBefore skillsHeadings text (length pre)"
    and ws: "list_all isWhiteSpace ws"
    and toks: "toks \<noteq> []" "\<not> isWhiteSpace (hd toks)" "CHR 0x0A \<notin> set toks"
    and follow: "follow = [] \<or> (\<exists>w rest. follow = CHR 0x0A # w @ CHR '':'' # rest \<and> w \<noteq> [] \<and> list_all isWordChar w)"
  shows "\<exists>m. js_match True skillsRe text = Some m \<and> matched m = h @ '':'' @ ws @ toks"
proof -
  let ?i = "length pre"
  have i: "?i \<le> length text" by (simp add: tx)
  have before: "\<forall>j<?i. ms True skillsRe (state_at text j) = []"
  proof (intro allI impI)
    fix j assume j: "j < ?i"
    then have "\<not> headingAt skillsHeadings text j"
      using nh by (simp add: noHeadingBefore_def list_all_iff)
    moreover have "j \<le> length text" using j i by simp
    ultimately show "ms True skillsRe (state_at text j) = []"
      by (rule skillsRe_no_heading)
  qed
  have "right (state_at text ?i) = h @ '':'' @ ws @ toks @ follow"
    by (simp add: state_at_def tx)
  then obtain y ys where y: "ms True skillsRe (state_at text ?i) = y # ys" and ry: "right y = follow"
    using skills_section_at_heading[OF _ h ws toks follow] by blast
  have "js_match True skillsRe text =
      Some \<lparr>matched = take (length text - ?i - length (right y)) (drop ?i text), captures = caps y\<rparr>"
    using i before y by (rule js_match_at)
  moreover have "take (length text - ?i - length (right y)) (drop ?i text) = h @ '':'' @ ws @ toks"
  proof -
    have d: "drop ?i text = (h @ '':'' @ ws @ toks) @ follow"
      by (simp add: tx)
    show ?thesis
      unfolding d by (rule take_length_append) (simp add: tx ry)
  qed
  ultimately show ?thesis by simp
qed

lemma text_with_token_not_blank:
  assumes "text = pre @ toks @ follow" and "toks \<noteq> []" and "\<not> isWhiteSpace (hd toks)"
  shows "\<not> list_all isWhiteSpace text"
proof -
  obtain c cs where "toks = c # cs" using assms(2) by (cases toks) auto
  then show ?thesis using assms(1,3) by simp
qed

lemma split_go_rust_python: "split_re sepRe ''Go, Rust; Python'' = [''Go'', ''Rust'', ''Python'']"
  by code_simp

lemma keep_rust_python:
  "map trim (filter (\<lambda>skill. trim skill \<noteq> [] \<and> length (trim skill) > 2) [''Go'', ''Rust'', ''Python''])
     = [''Rust'', ''Python'']"
  by code_simp

lemma resume_example_result:
  "extractResumeData
     ''Jane Doe\<newline>Skills:\<newline>Go, Rust; Python\<newline>Education:\<newline>BSc in Computer Science'' =
   Inr \<lparr>name = ''Jane Doe'', email = [], phone = [],
        experience = [''Various professional experiences''],
        education = [''BSc in Computer Science''],
        skills = [''Rust'', ''Python'']\<rparr>"
  by code_simp

lemma company_example_matches:
  "js_match True companyAtRe ''Company: Initech'' = None"
  "js_match True companyLabelRe ''Company: Initech'' =
     Some \<lparr>matched = ''Company: Initech'', captures = [(1, ''Initech'')]\<rparr>"
  by code_simp+

subsection \<open>The states a pattern can reach\<close>

lemma reads_Nil [simp]: "reads x [] y \<longleftrightarrow> y = x"
  by (auto simp add: reads_def)

lemma reads_adv: "reads x w y \<longleftrightarrow> y = adv (length w) x \<and> take (length w) (right x) = w \<and> length w \<le> length (right x)"
proof
  assume r: "reads x w y"
  then have 1: "y = adv (length w) x"
    by (intro mstate.equality) (simp_all add: reads_def adv_def)
  from r have 2: "take (length w) (right x) = w"
    by (simp add: reads_def)
  from r have "length (right x) = length w + length (right y)"
    by (simp add: reads_def)
  then have 3: "length w \<le> length (right x)" by simp
  from 1 2 3 show "y = adv (length w) x \<and> take (length w) (right x) = w \<and> length w \<le> length (right x)"
    by blast
next
  assume a: "y = adv (length w) x \<and> take (length w) (right x) = w \<and> length w \<le> length (right x)"
  then have "right x = w @ drop (length w) (right x)"
    by (metis append_take_drop_id)
  with a show "reads x w y"
    by (simp add: reads_def)
qed

lemma reads_append_iff: "reads x (w @ v) y \<longleftrightarrow> (\<exists>z. reads x w z \<and> reads z v y)"
proof
  assume r: "reads x (w @ v) y"
  let ?z = "\<lparr>left = rev w @ left x, right = v @ right y, caps = caps x\<rparr>"
  have "reads x w ?z \<and> reads ?z v y"
    using r by (simp add: reads_def)
  then show "\<exists>z. reads x w z \<and> reads z v y" ..
next
  assume "\<exists>z. reads x w z \<and> reads z v y"
  then show "reads x (w @ v) y"
    by (auto simp add: reads_def)
qed

lemma reads_Cons_iff: "reads x (c # v) y \<longleftrightarrow> (\<exists>z. reads x [c] z \<and> reads z v y)"
  using reads_append_iff[of x "[c]" v y] by simp

lemma le_length_takeWhile:
  "k \<le> length (takeWhile P xs) \<longleftrightarrow> k \<le> length xs \<and> list_all P (take k xs)"
proof (induction xs arbitrary: k)
  case Nil
  then show ?case by simp
next
  case (Cons a xs)
  then show ?case by (cases k) auto
qed

lemma in_ms_Repeat_class:
  "y \<in> set (ms ic (Repeat g mn None (CharClass neg A)) x) \<longleftrightarrow>
     (\<exists>w. reads x w y \<and> mn \<le> length w \<and> list_all (accepts ic neg A) w)"
proof -
  let ?n = "length (takeWhile (accepts ic neg A) (right x))"
  have "set (ms ic (Repeat g mn None (CharClass neg A)) x) = (\<lambda>k. adv k x) ` {mn ..< Suc ?n}"
    by (cases g) (simp_all add: ms_Repeat_class_greedy ms_Repeat_class_lazy del: upt_Suc)
  then have "y \<in> set (ms ic (Repeat g mn None (CharClass neg A)) x) \<longleftrightarrow>
      (\<exists>k. mn \<le> k \<and> k \<le> ?n \<and> y = adv k x)"
    by auto
  also have "\<dots> \<longleftrightarrow> (\<exists>k. mn \<le> k \<and> k \<le> length (right x) \<and> list_all (accepts ic neg A) (take k (right x)) \<and> y = adv k x)"
    by (simp add: le_length_takeWhile conj_ac)
  also have "\<dots> \<longleftrightarrow> (\<exists>w. reads x w y \<and> mn \<le> length w \<and> list_all (accepts ic neg A) w)"
  proof
    assume "\<exists>k. mn \<le> k \<and> k \<le> length (right x) \<and> list_all (accepts ic neg A) (take k (right x)) \<and> y = adv k x"
    then obtain k where k: "mn \<le> k" "k \<le> length (right x)"
        "list_all (accepts ic neg A) (take k (right x))" "y = adv k x" by blast
    have "reads x (take k (right x)) y"
      using k(2,4) by (simp add: reads_adv min_def)
    moreover have "mn \<le> length (take k (right x))" using k(1,2) by simp
    ultimately show "\<exists>w. reads x w y \<and> mn \<le> length w \<and> list_all (accepts ic neg A) w"
      using k(3) by blast
  next
    assume "\<exists>w. reads x w y \<and> mn \<le> length w \<and> list_all (accepts ic neg A) w"
    then obtain w where w: "reads x w y" "mn \<le> length w" "list_all (accepts ic neg A) w" by blast
    from w(1) have "y = adv (length w) x" "take (length w) (right x) = w" "length w \<le> length (right x)"
      by (simp_all add: reads_adv)
    with w(2,3) show "\<exists>k. mn \<le> k \<and> k \<le> length (right x) \<and> list_all (accepts ic neg A) (take k (right x)) \<and> y = adv k x"
      by auto
  qed
  finally show ?thesis .
qed

lemma reads_single: "reads x [c] y \<longleftrightarrow> (\<exists>cs. right x = c # cs) \<and> y = adv 1 x"
proof
  assume r: "reads x [c] y"
  then have "right x = c # right y" by (simp add: reads_def)
  moreover from r have "y = adv 1 x" by (simp add: reads_adv)
  ultimately show "(\<exists>cs. right x = c # cs) \<and> y = adv 1 x" by blast
next
  assume "(\<exists>cs. right x = c # cs) \<and> y = adv 1 x"
  then show "reads x [c] y" by (auto simp add: reads_adv)
qed

lemma in_ms_class:
  "y \<in> set (ms ic (CharClass neg A) x) \<longleftrightarrow> (\<exists>c. reads x [c] y \<and> accepts ic neg A c)"
proof (cases "right x")
  case Nil
  then show ?thesis by (simp add: ms_class reads_single)
next
  case (Cons c cs)
  show ?thesis
  proof (cases "accepts ic neg A c")
    case True
    then show ?thesis by (auto simp add: ms_class Cons reads_single)
  next
    case False
    then show ?thesis by (auto simp add: ms_class Cons reads_single)
  qed
qed

lemma in_ms_chr:
  "y \<in> set (ms ic (chr a) x) \<longleftrightarrow> (\<exists>c. reads x [c] y \<and> accepts ic False [Single a] c)"
  unfolding chr_def by (rule in_ms_class)

lemma in_ms_Seq:
  "y \<in> set (ms ic (Seq a b) x) \<longleftrightarrow> (\<exists>z. z \<in> set (ms ic a x) \<and> y \<in> set (ms ic b z))"
  by auto

lemma in_ms_WordBoundary:
  "y \<in> set (ms ic WordBoundary x) \<longleftrightarrow> y = x \<and> isWordAt (left x) \<noteq> isWordAt (right x)"
  by (cases "isWordAt (left x) \<noteq> isWordAt (right x)") simp_all

lemma in_ms_Empty: "y \<in> set (ms ic Empty x) \<longleftrightarrow> y = x"
  by auto

lemma accepts_single: "accepts False False [Single a] c \<longleftrightarrow> c = a"
  by (simp add: accepts_def class_mem_def)

lemma accepts_local:
  "accepts False False [Range CHR ''A'' CHR ''Z'', Range CHR ''a'' CHR ''z'',
        Range CHR ''0'' CHR ''9'', Single CHR ''.'', Single CHR ''_'', Single CHR ''%'',
        Single CHR ''+'', Single CHR ''-''] = localChar"
  by (rule ext) (auto simp add: accepts_def class_mem_def localChar_def isLetter_def isDigit_def)

lemma accepts_domain:
  "accepts False False [Range CHR ''A'' CHR ''Z'', Range CHR ''a'' CHR ''z'',
        Range CHR ''0'' CHR ''9'', Single CHR ''.'', Single CHR ''-''] = domainChar"
  by (rule ext) (auto simp add: accepts_def class_mem_def domainChar_def isLetter_def isDigit_def)

lemma accepts_tld:
  "accepts False False [Range CHR ''A'' CHR ''Z'', Single CHR ''|'', Range CHR ''a'' CHR ''z''] = tldClassChar"
  by (rule ext) (auto simp add: accepts_def class_mem_def tldClassChar_def isLetter_def)

lemma in_ms_Seq_chr_reads:
  assumes "\<And>z. y \<in> set (ms ic b z) \<longleftrightarrow> (\<exists>w. reads z w y \<and> P w)"
  shows "y \<in> set (ms ic (Seq (chr a) b) x) \<longleftrightarrow>
     (\<exists>w. reads x w y \<and> (\<exists>c v. w = c # v \<and> accepts ic False [Single a] c \<and> P v))"
proof
  assume "y \<in> set (ms ic (Seq (chr a) b) x)"
  then obtain z where z: "z \<in> set (ms ic (chr a) x)" "y \<in> set (ms ic b z)"
    unfolding in_ms_Seq by blast
  from z(1) obtain c where c: "reads x [c] z" "accepts ic False [Single a] c"
    unfolding in_ms_chr by blast
  from z(2) obtain v where v: "reads z v y" "P v"
    unfolding assms by blast
  have "reads x (c # v) y"
    using c(1) v(1) reads_Cons_iff by blast
  with c(2) v(2) show "\<exists>w. reads x w y \<and> (\<exists>c v. w = c # v \<and> accepts ic False [Single a] c \<and> P v)"
    by blast
next
  assume "\<exists>w. reads x w y \<and> (\<exists>c v. w = c # v \<and> accepts ic False [Single a] c \<and> P v)"
  then obtain c v where cv: "reads x (c # v) y" "accepts ic False [Single a] c" "P v"
    by blast
  from cv(1) obtain z where z: "reads x [c] z" "reads z v y"
    using reads_Cons_iff by blast
  have "z \<in> set (ms ic (chr a) x)"
    unfolding in_ms_chr using z(1) cv(2) by blast
  moreover have "y \<in> set (ms ic b z)"
    unfolding assms using z(2) cv(3) by blast
  ultimately show "y \<in> set (ms ic (Seq (chr a) b) x)"
    unfolding in_ms_Seq by blast
qed

lemma in_ms_Seq_rep_reads:
  assumes "\<And>z. y \<in> set (ms ic b z) \<longleftrightarrow> (\<exists>w. reads z w y \<and> P w)"
  shows "y \<in> set (ms ic (Seq (Repeat g mn None (CharClass neg A)) b) x) \<longleftrightarrow>
     (\<exists>w. reads x w y \<and> (\<exists>u v. w = u @ v \<and> mn \<le> length u \<and> list_all (accepts ic neg A) u \<and> P v))"
proof
  assume "y \<in> set (ms ic (Seq (Repeat g mn None (CharClass neg A)) b) x)"
  then obtain z where z: "z \<in> set (ms ic (Repeat g mn None (CharClass neg A)) x)" "y \<in> set (ms ic b z)"
    unfolding in_ms_Seq by blast
  from z(1) obtain u where u: "reads x u z" "mn \<le> length u" "list_all (accepts ic neg A) u"
    unfolding in_ms_Repeat_class by blast
  from z(2) obtain v where v: "reads z v y" "P v"
    unfolding assms by blast
  have "reads x (u @ v) y"
    using u(1) v(1) reads_append_iff by blast
  with u(2,3) v(2)
  show "\<exists>w. reads x w y \<and> (\<exists>u v. w = u @ v \<and> mn \<le> length u \<and> list_all (accepts ic neg A) u \<and> P v)"
    by blast
next
  assume "\<exists>w. reads x w y \<and> (\<exists>u v. w = u @ v \<and> mn \<le> length u \<and> list_all (accepts ic neg A) u \<and> P v)"
  then obtain u v where uv: "reads x (u @ v) y" "mn \<le> length u" "list_all (accepts ic neg A) u" "P v"
    by blast
  from uv(1) obtain z where z: "reads x u z" "reads z v y"
    using reads_append_iff by blast
  have "z \<in> set (ms ic (Repeat g mn None (CharClass neg A)) x)"
    unfolding in_ms_Repeat_class using z(1) uv(2,3) by blast
  moreover have "y \<in> set (ms ic b z)"
    unfolding assms using z(2) uv(4) by blast
  ultimately show "y \<in> set (ms ic (Seq (Repeat g mn None (CharClass neg A)) b) x)"
    unfolding in_ms_Seq by blast
qed

lemma in_ms_boundary_end:
  "y \<in> set (ms ic (Seq WordBoundary Empty) z) \<longleftrightarrow>
     (\<exists>w. reads z w y \<and> (w = [] \<and> isWordAt (left y) \<noteq> isWordAt (right y)))"
  unfolding in_ms_Seq in_ms_WordBoundary in_ms_Empty by auto

lemma in_ms_boundary_start:
  "y \<in> set (ms ic (Seq WordBoundary r) x) \<longleftrightarrow>
     isWordAt (left x) \<noteq> isWordAt (right x) \<and> y \<in> set (ms ic r x)"
  unfolding in_ms_Seq in_ms_WordBoundary by auto

lemma in_ms_emailRe:
  "y \<in> set (ms False emailRe x) \<longleftrightarrow>
     isWordAt (left x) \<noteq> isWordAt (right x) \<and> isWordAt (left y) \<noteq> isWordAt (right y)
     \<and> (\<exists>l d t. reads x (l @ CHR ''@'' # d @ CHR ''.'' # t) y
          \<and> 1 \<le> length l \<and> list_all localChar l \<and> 1 \<le> length d \<and> list_all domainChar d
          \<and> 2 \<le> length t \<and> list_all tldClassChar t)"
  (is "?L \<longleftrightarrow> ?R")
proof -
  define Q5 where "Q5 v4 \<longleftrightarrow> (\<exists>u5 v5. v4 = u5 @ v5 \<and> 2 \<le> length u5 \<and> list_all tldClassChar u5 \<and>
      (v5 = [] \<and> isWordAt (left y) \<noteq> isWordAt (right y)))" for v4
  define Q4 where "Q4 v3 \<longleftrightarrow> (\<exists>c4 v4. v3 = c4 # v4 \<and> c4 = CHR ''.'' \<and> Q5 v4)" for v3
  define Q3 where "Q3 v2 \<longleftrightarrow> (\<exists>u3 v3. v2 = u3 @ v3 \<and> 1 \<le> length u3 \<and> list_all domainChar u3 \<and> Q4 v3)" for v2
  define Q2 where "Q2 v \<longleftrightarrow> (\<exists>c v2. v = c # v2 \<and> c = CHR ''@'' \<and> Q3 v2)" for v
  define Q1 where "Q1 w \<longleftrightarrow> (\<exists>u v. w = u @ v \<and> 1 \<le> length u \<and> list_all localChar u \<and> Q2 v)" for w
  note step = in_ms_Seq_rep_reads[OF in_ms_Seq_chr_reads[OF in_ms_Seq_rep_reads[OF
        in_ms_Seq_chr_reads[OF in_ms_Seq_rep_reads[OF in_ms_boundary_end]]]]]
  have m: "?L \<longleftrightarrow> isWordAt (left x) \<noteq> isWordAt (right x) \<and> (\<exists>w. reads x w y \<and> Q1 w)"
    unfolding emailRe_def seq_Cons seq_Nil plus_def in_ms_boundary_start step
      accepts_single accepts_local accepts_domain accepts_tld Q1_def Q2_def Q3_def Q4_def Q5_def
    by (rule refl)
  have q5: "Q5 v4 \<longleftrightarrow> 2 \<le> length v4 \<and> list_all tldClassChar v4 \<and> isWordAt (left y) \<noteq> isWordAt (right y)" for v4
    unfolding Q5_def by auto
  have q4: "Q4 v3 \<longleftrightarrow> (\<exists>t. v3 = CHR ''.'' # t \<and> Q5 t)" for v3
    unfolding Q4_def by auto
  have q3: "Q3 v2 \<longleftrightarrow> (\<exists>d t. v2 = d @ CHR ''.'' # t \<and> 1 \<le> length d \<and> list_all domainChar d \<and> Q5 t)" for v2
    unfolding Q3_def q4 by blast
  have q2: "Q2 v \<longleftrightarrow> (\<exists>d t. v = CHR ''@'' # d @ CHR ''.'' # t \<and> 1 \<le> length d \<and> list_all domainChar d \<and> Q5 t)" for v
    unfolding Q2_def q3 by blast
  have q1: "Q1 w \<longleftrightarrow> (\<exists>l d t. w = l @ CHR ''@'' # d @ CHR ''.'' # t \<and> 1 \<le> length l \<and> list_all localChar l
      \<and> 1 \<le> length d \<and> list_all domainChar d \<and> Q5 t)" for w
    unfolding Q1_def q2 by blast
  show ?thesis
    unfolding m q1 q5 by blast
qed

subsection \<open>The email pattern\<close>

lemma adv_state_at:
  assumes "i + k \<le> length text"
  shows "adv k (state_at text i) = state_at text (i + k)"
proof -
  have "take (i + k) text = take i text @ take k (drop i text)"
    by (simp add: take_add)
  then show ?thesis
    by (simp add: adv_def state_at_def add.commute)
qed

lemma reads_state_at:
  "reads (state_at text i) w y \<longleftrightarrow>
     y = adv (length w) (state_at text i) \<and> take (length w) (drop i text) = w \<and> length w \<le> length text - i"
  by (simp add: reads_adv state_at_def)

lemma boundary_state_at:
  "isWordAt (left (state_at text i)) \<noteq> isWordAt (right (state_at text i)) \<longleftrightarrow> boundaryAt text i"
  by (simp add: state_at_def boundaryAt_def)

lemma email_ms_iff:
  assumes i: "i \<le> length text"
  shows "y \<in> set (ms False emailRe (state_at text i)) \<longleftrightarrow>
     (\<exists>n. emailAt tldClassChar text i n \<and> y = state_at text (i + n))"
proof
  assume "y \<in> set (ms False emailRe (state_at text i))"
  then obtain l d t where
    bx: "boundaryAt text i"
    and bnd: "isWordAt (left y) \<noteq> isWordAt (right y)"
    and rd: "reads (state_at text i) (l @ CHR ''@'' # d @ CHR ''.'' # t) y"
    and c: "1 \<le> length l" "list_all localChar l" "1 \<le> length d" "list_all domainChar d"
      "2 \<le> length t" "list_all tldClassChar t"
    unfolding in_ms_emailRe boundary_state_at by blast
  let ?s = "l @ CHR ''@'' # d @ CHR ''.'' # t"
  let ?n = "length ?s"
  from rd have y: "y = adv ?n (state_at text i)" and tk: "take ?n (drop i text) = ?s"
    and len: "?n \<le> length text - i"
    unfolding reads_state_at by blast+
  from len i have le: "i + ?n \<le> length text" by simp
  then have y': "y = state_at text (i + ?n)"
    using y by (simp only: adv_state_at)
  have "emailShape tldClassChar ?s"
    unfolding emailShape_def using c by (intro exI[of _ l] exI[of _ d] exI[of _ t]) auto
  then have "emailShape tldClassChar (take ?n (drop i text))"
    by (simp only: tk)
  moreover have "boundaryAt text (i + ?n)"
    using bnd unfolding y' boundary_state_at .
  ultimately have "emailAt tldClassChar text i ?n"
    unfolding emailAt_def using le bx by blast
  with y' show "\<exists>n. emailAt tldClassChar text i n \<and> y = state_at text (i + n)" by blast
next
  assume "\<exists>n. emailAt tldClassChar text i n \<and> y = state_at text (i + n)"
  then obtain n where n: "i + n \<le> length text" "emailShape tldClassChar (take n (drop i text))"
      "boundaryAt text i" "boundaryAt text (i + n)" and y: "y = state_at text (i + n)"
    unfolding emailAt_def by blast
  from n(2) obtain l d t where s: "take n (drop i text) = l @ ''@'' @ d @ ''.'' @ t"
    and c: "l \<noteq> []" "list_all localChar l" "d \<noteq> []" "list_all domainChar d"
      "2 \<le> length t" "list_all tldClassChar t"
    unfolding emailShape_def by blast
  let ?s = "l @ CHR ''@'' # d @ CHR ''.'' # t"
  have s': "take n (drop i text) = ?s" using s by simp
  have "length (take n (drop i text)) = n" using n(1) by simp
  then have ln: "length ?s = n" unfolding s' .
  have "reads (state_at text i) ?s y"
    unfolding reads_state_at ln using s' n(1) y by (simp add: adv_state_at)
  moreover have "isWordAt (left y) \<noteq> isWordAt (right y)"
    unfolding y boundary_state_at by (rule n(4))
  moreover have "1 \<le> length l" "1 \<le> length d"
    using c(1,3) by (simp_all add: Suc_le_eq)
  ultimately show "y \<in> set (ms False emailRe (state_at text i))"
    unfolding in_ms_emailRe boundary_state_at using n(3) c(2,4,5,6) by blast
qed

lemma emailShape_no_bar:
  assumes "CHR ''|'' \<notin> set s"
  shows "emailShape tldClassChar s \<longleftrightarrow> emailShape isLetter s"
proof -
  have "list_all tldClassChar t \<longleftrightarrow> list_all isLetter t" if "set t \<subseteq> set s" for t
    using that assms by (auto simp add: list_all_iff tldClassChar_def)
  moreover have "set t \<subseteq> set s" if "s = l @ ''@'' @ d @ ''.'' @ t" for l d t
    using that by auto
  ultimately show ?thesis
    unfolding emailShape_def by blast
qed

lemma emailAt_no_bar:
  assumes "CHR ''|'' \<notin> set text"
  shows "emailAt tldClassChar text i n \<longleftrightarrow> emailAt isLetter text i n"
proof -
  have "set (take n (drop i text)) \<subseteq> set text"
    by (meson set_take_subset set_drop_subset subset_trans)
  then have "CHR ''|'' \<notin> set (take n (drop i text))"
    using assms by blast
  then have "emailShape tldClassChar (take n (drop i text)) \<longleftrightarrow> emailShape isLetter (take n (drop i text))"
    by (rule emailShape_no_bar)
  then show ?thesis
    unfolding emailAt_def by simp
qed

lemma email_field:
  assumes "extractResumeData text = Inr r"
  shows "email r = (case js_match False emailRe text of Some m \<Rightarrow> matched m | None \<Rightarrow> [])"
proof -
  have "extractResumeData text \<noteq> Inl TypeError" using assms by simp
  then have "\<not> list_all isWhiteSpace text"
    by (simp only: extractResumeData_raises_iff not_False_eq_True)
  then show ?thesis
    using extractResumeData_fields[of "text"] assms by auto
qed

subsection \<open>Greedy matches come longest first\<close>

lemma sorted_concat_desc:
  fixes e :: "'a \<Rightarrow> nat" and F :: "nat \<Rightarrow> 'a list"
  assumes "sorted_wrt (>) xs"
    and "\<forall>k\<in>set xs. sorted (map e (F k))"
    and "\<forall>k\<in>set xs. \<forall>k'\<in>set xs. k' < k \<longrightarrow> (\<forall>y\<in>set (F k). \<forall>y'\<in>set (F k'). e y \<le> e y')"
  shows "sorted (map e (concat (map F xs)))"
  using assms
proof (induction xs)
  case Nil
  then show ?case by simp
next
  case (Cons k xs)
  have 1: "sorted (map e (F k))" using Cons.prems(2) by simp
  have 2: "sorted (map e (concat (map F xs)))"
    using Cons.prems by (intro Cons.IH) auto
  have 3: "\<forall>y\<in>set (F k). \<forall>y'\<in>set (concat (map F xs)). e y \<le> e y'"
  proof (intro ballI)
    fix y y' assume y: "y \<in> set (F k)" and "y' \<in> set (concat (map F xs))"
    then obtain k' where k': "k' \<in> set xs" "y' \<in> set (F k')" by auto
    then have "k' < k" using Cons.prems(1) by auto
    with Cons.prems(3) k' y show "e y \<le> e y'" by auto
  qed
  show ?case
    using 1 2 3 by (simp add: sorted_append)
qed

lemma takeWhile_length_le:
  assumes "i < length xs" and "\<not> P (xs ! i)"
  shows "length (takeWhile P xs) \<le> i"
proof (rule ccontr)
  assume "\<not> length (takeWhile P xs) \<le> i"
  then have lt: "i < length (takeWhile P xs)" by simp
  then have "takeWhile P xs ! i = xs ! i" by (rule takeWhile_nth)
  moreover have "takeWhile P xs ! i \<in> set (takeWhile P xs)" using lt by simp
  ultimately have "P (xs ! i)" by (metis set_takeWhileD)
  with assms(2) show False by simp
qed

lemma takeWhile_nth_holds:
  assumes "i < length (takeWhile P xs)"
  shows "P (xs ! i)"
proof -
  have "takeWhile P xs ! i = xs ! i" using assms by (rule takeWhile_nth)
  moreover have "takeWhile P xs ! i \<in> set (takeWhile P xs)" using assms by simp
  ultimately show ?thesis by (metis set_takeWhileD)
qed

lemma ms_Seq_greedy_class:
  "ms ic (Seq (Repeat True mn None (CharClass neg A)) b) x =
     concat (map (\<lambda>k. ms ic b (adv k x))
       (rev [mn ..< Suc (length (takeWhile (accepts ic neg A) (right x)))]))"
  by (simp add: ms_Repeat_class_greedy comp_def del: upt_Suc)

lemma ms_Seq_chr:
  "ms ic (Seq (chr a) b) x =
     (case right x of [] \<Rightarrow> []
      | c # cs \<Rightarrow> if accepts ic False [Single a] c then ms ic b (adv 1 x) else [])"
  by (simp add: ms_chr split: list.splits)

lemma desc_upt: "sorted_wrt (>) (rev [a ..< b])"
  by (simp add: sorted_wrt_rev)

text \<open>The tail of the email pattern after the last dot.\<close>

lemma tld_tail_elems:
  assumes "y \<in> set (ms ic (Seq (Repeat True mn None (CharClass neg A)) (Seq WordBoundary Empty)) z)"
  shows "\<exists>j. y = adv j z \<and> mn \<le> j \<and> j \<le> length (takeWhile (accepts ic neg A) (right z))"
  using assms unfolding ms_Seq_greedy_class by (auto split: if_splits)

lemma tld_tail_sorted:
  "sorted (map (\<lambda>y. length (right y))
     (ms ic (Seq (Repeat True mn None (CharClass neg A)) (Seq WordBoundary Empty)) z))"
  unfolding ms_Seq_greedy_class
proof (rule sorted_concat_desc[OF desc_upt], goal_cases)
  case 1
  show ?case by (auto split: if_splits)
next
  case 2
  show ?case by (auto split: if_splits)
qed


text \<open>From the dot on: \<^verbatim>\<open>\.[A-Z|a-z]{2,}\b\<close>.\<close>

lemma dot_tail_sorted:
  "sorted (map (\<lambda>y. length (right y))
     (ms ic (Seq (chr a) (Seq (Repeat True mn None (CharClass neg A)) (Seq WordBoundary Empty))) z))"
  unfolding ms_Seq_chr by (simp add: tld_tail_sorted split: list.splits del: ms.simps(3))

lemma drop_eq_ConsD:
  assumes "drop k xs = c # cs"
  shows "k < length xs" and "xs ! k = c" and "cs = drop (Suc k) xs"
proof -
  show k: "k < length xs"
    using assms by (cases "k < length xs") simp_all
  have "xs ! k # drop (Suc k) xs = c # cs"
    using assms Cons_nth_drop_Suc[OF k] by simp
  then show "xs ! k = c" and "cs = drop (Suc k) xs" by simp_all
qed

lemma dot_tail_elems:
  assumes "y \<in> set (ms ic (Seq (chr a) (Seq (Repeat True mn None (CharClass neg A)) (Seq WordBoundary Empty))) z)"
  shows "\<exists>c cs j. right z = c # cs \<and> accepts ic False [Single a] c \<and> y = adv (Suc j) z \<and> mn \<le> j
     \<and> j \<le> length (takeWhile (accepts ic neg A) cs)"
proof (cases "right z")
  case Nil
  with assms show ?thesis unfolding ms_Seq_chr by simp
next
  case (Cons c cs)
  show ?thesis
  proof (cases "accepts ic False [Single a] c")
    case False
    with assms Cons show ?thesis unfolding ms_Seq_chr by simp
  next
    case True
    with assms Cons
    have y: "y \<in> set (ms ic (Seq (Repeat True mn None (CharClass neg A)) (Seq WordBoundary Empty)) (adv 1 z))"
      unfolding ms_Seq_chr by (simp del: ms.simps(3))
    from tld_tail_elems[OF y] obtain j where "y = adv j (adv 1 z)" "mn \<le> j"
      "j \<le> length (takeWhile (accepts ic neg A) (right (adv 1 z)))" by blast
    then have "y = adv (Suc j) z" "mn \<le> j" "j \<le> length (takeWhile (accepts ic neg A) cs)"
      by (simp_all add: Cons)
    with Cons True show ?thesis by blast
  qed
qed

text \<open>
  From the domain on: when the code unit matched by \<open>a\<close> (the dot) is not in the class of
  the last part, a match through an earlier dot ends before a later dot.
\<close>

lemma domain_tail_sorted:
  assumes sep: "\<And>c. accepts ic False [Single a] c \<Longrightarrow> \<not> accepts ic neg A c"
  shows "sorted (map (\<lambda>y. length (right y))
     (ms ic (Seq (Repeat True mn' None (CharClass neg' A'))
        (Seq (chr a) (Seq (Repeat True mn None (CharClass neg A)) (Seq WordBoundary Empty)))) z))"
  unfolding ms_Seq_greedy_class
proof (rule sorted_concat_desc[OF desc_upt], goal_cases)
  case 1
  show ?case by (intro ballI dot_tail_sorted)
next
  case 2
  let ?R = "Seq (chr a) (Seq (Repeat True mn None (CharClass neg A)) (Seq WordBoundary Empty))"
  show ?case
  proof (intro ballI impI)
    fix k k' y y'
    assume lt: "k' < k" and y: "y \<in> set (ms ic ?R (adv k z))" and y': "y' \<in> set (ms ic ?R (adv k' z))"
    from dot_tail_elems[OF y] obtain c cs j where
      r: "right (adv k z) = c # cs" and acc: "accepts ic False [Single a] c" and yj: "y = adv (Suc j) (adv k z)"
      by blast
    from dot_tail_elems[OF y'] obtain c' cs' j' where
      r': "right (adv k' z) = c' # cs'" and yj': "y' = adv (Suc j') (adv k' z)"
      and j': "j' \<le> length (takeWhile (accepts ic neg A) cs')"
      by blast
    have dk: "drop k (right z) = c # cs" using r by simp
    have k: "k < length (right z)" and ck: "right z ! k = c"
      using drop_eq_ConsD[OF dk] by blast+
    have dk': "drop k' (right z) = c' # cs'" using r' by simp
    have cs': "cs' = drop (Suc k') (right z)"
      using drop_eq_ConsD[OF dk'] by blast
    have idx: "k - Suc k' < length cs'" using lt k by (simp add: cs')
    have "cs' ! (k - Suc k') = c"
      using lt k ck by (simp add: cs')
    then have "\<not> accepts ic neg A (cs' ! (k - Suc k'))"
      using sep[OF acc] by simp
    with idx have "length (takeWhile (accepts ic neg A) cs') \<le> k - Suc k'"
      by (rule takeWhile_length_le)
    with j' have "Suc k' + j' \<le> k" using lt by simp
    then have "length (right y) \<le> length (right y')"
      by (simp add: yj yj')
    then show "length (right y) \<le> length (right y')" .
  qed
qed

lemma at_tail_sorted:
  assumes sep: "\<And>c. accepts ic False [Single b] c \<Longrightarrow> \<not> accepts ic neg A c"
    and R: "\<And>z. sorted (map (\<lambda>y. length (right y)) (ms ic R z))"
  shows "sorted (map (\<lambda>y. length (right y))
     (ms ic (Seq (Repeat True mn None (CharClass neg A)) (Seq (chr b) R)) x))"
  unfolding ms_Seq_greedy_class
proof (rule sorted_concat_desc[OF desc_upt], goal_cases)
  case 1
  show ?case
    unfolding ms_Seq_chr by (simp add: R split: list.splits)
next
  case 2
  show ?case
  proof (intro ballI impI)
    fix k k' y y'
    assume k: "k \<in> set (rev [mn ..< Suc (length (takeWhile (accepts ic neg A) (right x)))])"
      and lt: "k' < k" and y': "y' \<in> set (ms ic (Seq (chr b) R) (adv k' x))"
    from k lt have k'n: "k' < length (takeWhile (accepts ic neg A) (right x))" by auto
    then have in_class: "accepts ic neg A (right x ! k')"
      by (rule takeWhile_nth_holds)
    have "\<exists>c cs. right (adv k' x) = c # cs \<and> accepts ic False [Single b] c"
    proof (cases "right (adv k' x)")
      case Nil
      from y' have False
        unfolding ms_Seq_chr Nil by (simp only: list.case list.set empty_iff)
      then show ?thesis ..
    next
      case (Cons c cs)
      show ?thesis
      proof (cases "accepts ic False [Single b] c")
        case True
        with Cons show ?thesis by blast
      next
        case False
        from y' have "False"
          unfolding ms_Seq_chr Cons using False by (simp only: list.case if_False list.set empty_iff)
        then show ?thesis ..
      qed
    qed
    then obtain c cs where r: "right (adv k' x) = c # cs" and acc: "accepts ic False [Single b] c"
      by blast
    from r have "drop k' (right x) = c # cs" by simp
    then have "right x ! k' = c" by (rule drop_eq_ConsD(2))
    with sep[OF acc] in_class show "length (right y) \<le> length (right y')" by simp
  qed
qed

lemma email_matches_sorted:
  "sorted (map (\<lambda>y. length (right y)) (ms False emailRe x))"
proof -
  have dot: "\<not> accepts False False [Range CHR ''A'' CHR ''Z'', Single CHR ''|'', Range CHR ''a'' CHR ''z''] c"
    if "accepts False False [Single CHR ''.''] c" for c
  proof -
    from that have "c = CHR ''.''" by (simp add: accepts_single)
    then show ?thesis
      by (simp add: accepts_tld tldClassChar_def isLetter_def in_range_def)
  qed
  have at: "\<not> accepts False False [Range CHR ''A'' CHR ''Z'', Range CHR ''a'' CHR ''z'',
        Range CHR ''0'' CHR ''9'', Single CHR ''.'', Single CHR ''_'', Single CHR ''%'',
        Single CHR ''+'', Single CHR ''-''] c"
    if "accepts False False [Single CHR ''@''] c" for c
  proof -
    from that have "c = CHR ''@''" by (simp add: accepts_single)
    then show ?thesis
      by (simp add: accepts_local localChar_def isLetter_def isDigit_def in_range_def)
  qed
  note dom = domain_tail_sorted[of False "CHR ''.''" False
      "[Range CHR ''A'' CHR ''Z'', Single CHR ''|'', Range CHR ''a'' CHR ''z'']", OF dot]
  note loc = at_tail_sorted[of False "CHR ''@''" False _ _ 1, OF at dom]
  have wb: "ms False (Seq WordBoundary r) x =
      (if isWordAt (left x) \<noteq> isWordAt (right x) then ms False r x else [])" for r
    by simp
  show ?thesis
  proof (cases "isWordAt (left x) \<noteq> isWordAt (right x)")
    case True
    then show ?thesis
      unfolding emailRe_def seq_Cons seq_Nil plus_def wb
      by (simp only: if_True not_False_eq_True loc)
  next
    case False
    then show ?thesis
      unfolding emailRe_def seq_Cons seq_Nil plus_def wb
      by simp
  qed
qed

lemma email_first_longest:
  assumes "ms False emailRe x = y # ys" and "y' \<in> set (ms False emailRe x)"
  shows "length (right y) \<le> length (right y')"
proof -
  have "sorted (map (\<lambda>y. length (right y)) (y # ys))"
    using email_matches_sorted[of x] by (simp only: assms(1))
  then show ?thesis
    using assms(2) unfolding assms(1) by auto
qed

text \<open>The match the engine reports for the email pattern.\<close>

lemma email_match_cases:
  "(\<exists>i n. emailAt tldClassChar text i n) \<and>
     (\<exists>i n m. js_match False emailRe text = Some m \<and> emailAt tldClassChar text i n
        \<and> matched m = take n (drop i text) \<and> (\<forall>j<i. \<forall>k. \<not> emailAt tldClassChar text j k)
        \<and> (\<forall>k. emailAt tldClassChar text i k \<longrightarrow> k \<le> n))
   \<or> (\<nexists>i n. emailAt tldClassChar text i n) \<and> js_match False emailRe text = None"
proof (cases "js_match False emailRe text")
  case None
  have "\<not> emailAt tldClassChar text i n" for i n
  proof
    assume e: "emailAt tldClassChar text i n"
    then have i: "i \<le> length text" by (simp add: emailAt_def)
    from e have "state_at text (i + n) \<in> set (ms False emailRe (state_at text i))"
      unfolding email_ms_iff[OF i] by blast
    moreover have "ms False emailRe (state_at text i) = []"
      using None i unfolding js_match_None_iff by blast
    ultimately show False by simp
  qed
  with None show ?thesis by blast
next
  case (Some m)
  from js_match_SomeD[OF Some] obtain i y ys where
    i: "i \<le> length text"
    and before: "\<forall>j<i. ms False emailRe (state_at text j) = []"
    and y: "ms False emailRe (state_at text i) = y # ys"
    and m: "m = \<lparr>matched = take (length text - i - length (right y)) (drop i text), captures = caps y\<rparr>"
    by blast
  from y have "y \<in> set (ms False emailRe (state_at text i))" by simp
  then obtain n where n: "emailAt tldClassChar text i n" and yn: "y = state_at text (i + n)"
    unfolding email_ms_iff[OF i] by blast
  from n have le: "i + n \<le> length text" by (simp add: emailAt_def)
  have "length (right y) = length text - (i + n)"
    by (simp add: yn state_at_def)
  then have "length text - i - length (right y) = n"
    using le by simp
  then have mm: "matched m = take n (drop i text)"
    by (simp add: m)
  have least: "\<forall>j<i. \<forall>k. \<not> emailAt tldClassChar text j k"
  proof (intro allI impI notI)
    fix j k assume j: "j < i" and e: "emailAt tldClassChar text j k"
    from j i have jl: "j \<le> length text" by simp
    from e have "state_at text (j + k) \<in> set (ms False emailRe (state_at text j))"
      unfolding email_ms_iff[OF jl] by blast
    moreover have "ms False emailRe (state_at text j) = []"
      using before j by blast
    ultimately show False by simp
  qed
  have longest: "\<forall>k. emailAt tldClassChar text i k \<longrightarrow> k \<le> n"
  proof (intro allI impI)
    fix k assume e: "emailAt tldClassChar text i k"
    then have "state_at text (i + k) \<in> set (ms False emailRe (state_at text i))"
      unfolding email_ms_iff[OF i] by blast
    with y have "length (right y) \<le> length (right (state_at text (i + k)))"
      by (rule email_first_longest)
    moreover from e have "i + k \<le> length text" by (simp add: emailAt_def)
    ultimately show "k \<le> n"
      using le by (simp add: yn state_at_def)
  qed
  from Some n mm least longest show ?thesis by blast
qed

lemma email_example_result:
  "extractResumeData ''a@b.com1'' =
   Inr \<lparr>name = ''a@b.com1'', email = [], phone = [],
        experience = [''Various professional experiences''],
        education = [''Relevant educational background''],
        skills = [''Various professional skills'']\<rparr>"
  by code_simp

lemma email_example_shape: "emailShape isLetter ''a@b.com''"
proof -
  have "list_all localChar ''a''" "list_all domainChar ''b''" "list_all isLetter ''com''"
    by code_simp+
  then show ?thesis
    unfolding emailShape_def
    by (intro exI[of _ "''a''"] exI[of _ "''b''"] exI[of _ "''com''"]) simp
qed

lemma email_witness_result:
  "extractResumeData ''Mail jane@x.org now'' =
   Inr \<lparr>name = ''Mail jane@x.org now'', email = ''jane@x.org'', phone = [],
        experience = [''Various professional experiences''],
        education = [''Relevant educational background''],
        skills = [''Various professional skills'']\<rparr>"
  by code_simp

lemma email_witness_at: "emailAt isLetter ''Mail jane@x.org now'' 5 10"
proof -
  have "list_all localChar ''jane''" "list_all domainChar ''x''" "list_all isLetter ''org''"
    by code_simp+
  then have "emailShape isLetter ''jane@x.org''"
    unfolding emailShape_def
    by (intro exI[of _ "''jane''"] exI[of _ "''x''"] exI[of _ "''org''"]) simp
  moreover have "take 10 (drop 5 ''Mail jane@x.org now'') = ''jane@x.org''"
    by simp
  moreover have "boundaryAt ''Mail jane@x.org now'' 5" "boundaryAt ''Mail jane@x.org now'' (5 + 10)"
    by code_simp+
  ultimately show ?thesis
    unfolding emailAt_def by simp
qed

section \<open>The store of RegExp objects\<close>

lemma returnsD: "returns f v \<Longrightarrow> \<exists>news. f st = (v, st @ news)"
  by (simp add: returns_def)

lemma match_literal_returns: "returns (match_literal r ic s) (js_match ic r s)"
  by (simp add: returns_def match_literal_def new_regexp_def match_st_def)

lemma split_literal_returns: "returns (split_literal r s) (split_re r s)"
  by (simp add: returns_def split_literal_def new_regexp_def split_st_def)

lemma flatMap_split_returns: "returns (flatMap_split r ls) (concat (map (split_re r) ls))"
  unfolding returns_def
proof (induction ls)
  case Nil
  then show ?case by simp
next
  case (Cons l ls)
  show ?case
  proof
    fix st
    obtain n1 where 1: "split_literal r l st = (split_re r l, st @ n1)"
      using returnsD[OF split_literal_returns] by blast
    obtain n2 where 2: "flatMap_split r ls (st @ n1) = (concat (map (split_re r) ls), (st @ n1) @ n2)"
      using Cons.IH by blast
    show "\<exists>news. flatMap_split r (l # ls) st = (concat (map (split_re r) (l # ls)), st @ news)"
      by (simp add: 1 2)
  qed
qed

lemma or_else_st_returns:
  assumes "returns a x" and "returns b y"
  shows "returns (or_else_st a b) (or_else x y)"
  unfolding returns_def
proof
  fix st
  obtain n1 where 1: "a st = (x, st @ n1)" using returnsD[OF assms(1)] by blast
  obtain n2 where 2: "b (st @ n1) = (y, (st @ n1) @ n2)" using returnsD[OF assms(2)] by blast
  show "\<exists>news. or_else_st a b st = (or_else x y, st @ news)"
    by (cases x) (simp_all add: or_else_st_def or_else_def 1 2)
qed

lemma extractResumeData_st_returns: "returns (extractResumeData_st text) (extractResumeData text)"
  unfolding returns_def
proof
  fix st
  show "\<exists>news. extractResumeData_st text st = (extractResumeData text, st @ news)"
  proof (cases "filter (\<lambda>line. trim line \<noteq> []) (split_on CHR 0x0A text)")
    case Nil
    have "extractResumeData_st text st = (Inl TypeError, st)"
      unfolding extractResumeData_st_def Let_def Nil list.case ..
    moreover have "extractResumeData text = Inl TypeError"
      unfolding extractResumeData_def Let_def Nil list.case ..
    ultimately have "extractResumeData_st text st = (extractResumeData text, st @ [])"
      by simp
    then show ?thesis ..
  next
    case (Cons line0 rest)
    obtain n1 where 1: "match_literal emailRe False text st = (js_match False emailRe text, st @ n1)"
      using returnsD[OF match_literal_returns] by blast
    obtain n2 where 2: "match_literal phoneRe False text (st @ n1) = (js_match False phoneRe text, (st @ n1) @ n2)"
      using returnsD[OF match_literal_returns] by blast
    obtain n3 where 3: "match_literal skillsRe True text ((st @ n1) @ n2) = (js_match True skillsRe text, ((st @ n1) @ n2) @ n3)"
      using returnsD[OF match_literal_returns] by blast
    define st3 where "st3 = ((st @ n1) @ n2) @ n3"
    define sk where "sk = (case js_match True skillsRe text of
                      Some m \<Rightarrow>
                        map trim
                          (filter (\<lambda>skill. trim skill \<noteq> [] \<and> length (trim skill) > 2)
                            (concat (map (split_re sepRe) (sectionLines m))))
                    | None \<Rightarrow> [])"
    have "\<exists>n4. (case js_match True skillsRe text of
                      Some m \<Rightarrow>
                        (case flatMap_split sepRe (sectionLines m) st3 of (toks, st') \<Rightarrow>
                          (map trim
                               (filter (\<lambda>skill. trim skill \<noteq> [] \<and> length (trim skill) > 2) toks),
                             st'))
                    | None \<Rightarrow> ([], st3)) = (sk, st3 @ n4)"
    proof (cases "js_match True skillsRe text")
      case None
      then have "(case js_match True skillsRe text of
                      Some m \<Rightarrow>
                        (case flatMap_split sepRe (sectionLines m) st3 of (toks, st') \<Rightarrow>
                          (map trim
                               (filter (\<lambda>skill. trim skill \<noteq> [] \<and> length (trim skill) > 2) toks),
                             st'))
                    | None \<Rightarrow> ([], st3)) = (sk, st3 @ [])"
        by (simp add: sk_def)
      then show ?thesis ..
    next
      case (Some m)
      obtain n where "flatMap_split sepRe (sectionLines m) st3 = (concat (map (split_re sepRe) (sectionLines m)), st3 @ n)"
        using returnsD[OF flatMap_split_returns] by blast
      then have "(case js_match True skillsRe text of
                      Some m \<Rightarrow>
                        (case flatMap_split sepRe (sectionLines m) st3 of (toks, st') \<Rightarrow>
                          (map trim
                               (filter (\<lambda>skill. trim skill \<noteq> [] \<and> length (trim skill) > 2) toks),
                             st'))
                    | None \<Rightarrow> ([], st3)) = (sk, st3 @ n)"
        by (simp add: sk_def Some)
      then show ?thesis ..
    qed
    then obtain n4 where 4: "(case js_match True skillsRe text of
                      Some m \<Rightarrow>
                        (case flatMap_split sepRe (sectionLines m) st3 of (toks, st') \<Rightarrow>
                          (map trim
                               (filter (\<lambda>skill. trim skill \<noteq> [] \<and> length (trim skill) > 2) toks),
                             st'))
                    | None \<Rightarrow> ([], st3)) = (sk, st3 @ n4)" ..
    obtain n5 where 5: "match_literal expRe True text (st3 @ n4) = (js_match True expRe text, (st3 @ n4) @ n5)"
      using returnsD[OF match_literal_returns] by blast
    obtain n6 where 6: "match_literal eduRe True text ((st3 @ n4) @ n5) = (js_match True eduRe text, ((st3 @ n4) @ n5) @ n6)"
      using returnsD[OF match_literal_returns] by blast
    have e: "((st3 @ n4) @ n5) @ n6 = st @ (n1 @ n2 @ n3 @ n4 @ n5 @ n6)"
      by (simp add: st3_def)
    have A: "fst (extractResumeData_st text st) = extractResumeData text"
      unfolding extractResumeData_st_def extractResumeData_def Let_def Cons list.case 1 2 3 prod.case
        st3_def[symmetric] 4 5 6 sk_def fst_conv ..
    have B: "snd (extractResumeData_st text st) = ((st3 @ n4) @ n5) @ n6"
      unfolding extractResumeData_st_def Let_def Cons list.case 1 2 3 prod.case
        st3_def[symmetric] 4 5 6 snd_conv ..
    have "extractResumeData_st text st = (extractResumeData text, st @ (n1 @ n2 @ n3 @ n4 @ n5 @ n6))"
      using A B unfolding e by (metis prod.collapse)
    then show ?thesis ..
  qed
qed

lemma analyzeJobDescription_st_returns: "returns (analyzeJobDescription_st text) (analyzeJobDescription text)"
  unfolding returns_def
proof
  fix st
  define cm where "cm = or_else (js_match True companyAtRe text)
      (or_else (js_match True companyLabelRe text) (js_match True companyAboutRe text))"
  define rm where "rm = or_else (js_match True rolePositionRe text)
      (or_else (js_match True roleLabelRe text)
        (or_else (js_match True roleLookingRe text) (js_match True roleSeekingRe text)))"
  have "returns (or_else_st (match_literal companyAtRe True text)
              (or_else_st (match_literal companyLabelRe True text)
                (match_literal companyAboutRe True text))) cm"
    unfolding cm_def by (intro or_else_st_returns match_literal_returns)
  then obtain n1 where 1: "or_else_st (match_literal companyAtRe True text)
              (or_else_st (match_literal companyLabelRe True text)
                (match_literal companyAboutRe True text)) st = (cm, st @ n1)"
    by (blast dest: returnsD)
  have "returns (or_else_st (match_literal rolePositionRe True text)
              (or_else_st (match_literal roleLabelRe True text)
                (or_else_st (match_literal roleLookingRe True text)
                  (match_literal roleSeekingRe True text)))) rm"
    unfolding rm_def by (intro or_else_st_returns match_literal_returns)
  then obtain n2 where 2: "or_else_st (match_literal rolePositionRe True text)
              (or_else_st (match_literal roleLabelRe True text)
                (or_else_st (match_literal roleLookingRe True text)
                  (match_literal roleSeekingRe True text))) (st @ n1) = (rm, (st @ n1) @ n2)"
    by (blast dest: returnsD)
  have A: "analyzeJobDescription_st text st =
      (case group1_or cm ''the company'' of
           Inl e \<Rightarrow> (Inl e, (st @ n1) @ n2)
         | Inr co \<Rightarrow>
            (case group1_or rm ''the position'' of
               Inl e \<Rightarrow> (Inl e, (st @ n1) @ n2)
             | Inr ro \<Rightarrow>
                 (Inr \<lparr>company = co, role = ro,
                      requirements = (if buildRequirements text \<noteq> [] then buildRequirements text
                         else [''Various skills and experiences''])\<rparr>,
                  (st @ n1) @ n2)))"
    unfolding analyzeJobDescription_st_def Let_def 1 2 prod.case ..
  have B: "analyzeJobDescription text =
      (case group1_or cm ''the company'' of
           Inl e \<Rightarrow> Inl e
         | Inr co \<Rightarrow>
            (case group1_or rm ''the position'' of
               Inl e \<Rightarrow> Inl e
             | Inr ro \<Rightarrow>
                 Inr \<lparr>company = co, role = ro,
                      requirements = (if buildRequirements text \<noteq> [] then buildRequirements text
                         else [''Various skills and experiences''])\<rparr>))"
    unfolding analyzeJobDescription_def Let_def cm_def rm_def ..
  have "analyzeJobDescription_st text st = (analyzeJobDescription text, st @ (n1 @ n2))"
    unfolding A B
    by (cases "group1_or cm ''the company''"; cases "group1_or rm ''the position''") simp_all
  then show "\<exists>news. analyzeJobDescription_st text st = (analyzeJobDescription text, st @ news)" ..
qed

text \<open>
  What \<open>match_st\<close> returns depends on the object that the reference names in the store,
  and a run of the analyser leaves the objects of its literals behind the ones it found.
\<close>

lemma match_st_reads_store:
  "fst (match_st ''a'' 0 [\<lparr>source = chr CHR ''a'', ignoreCase = False, lastIndex = 0\<rparr>]) \<noteq>
   fst (match_st ''a'' 0 [\<lparr>source = chr CHR ''b'', ignoreCase = False, lastIndex = 0\<rparr>])"
  by code_simp

lemma store_example:
  "analyzeJobDescription_st ''Company: Initech''
     [\<lparr>source = Empty, ignoreCase = False, lastIndex = 7\<rparr>] =
   (Inr \<lparr>company = ''Initech'', role = ''the position'',
         requirements = [''Various skills and experiences'']\<rparr>,
    [\<lparr>source = Empty, ignoreCase = False, lastIndex = 7\<rparr>,
     \<lparr>source = companyAtRe, ignoreCase = True, lastIndex = 0\<rparr>,
     \<lparr>source = companyLabelRe, ignoreCase = True, lastIndex = 0\<rparr>,
     \<lparr>source = rolePositionRe, ignoreCase = True, lastIndex = 0\<rparr>,
     \<lparr>source = roleLabelRe, ignoreCase = True, lastIndex = 0\<rparr>,
     \<lparr>source = roleLookingRe, ignoreCase = True, lastIndex = 0\<rparr>,
     \<lparr>source = roleSeekingRe, ignoreCase = True, lastIndex = 0\<rparr>])"
  by code_simp

section \<open>The order of the company patterns\<close>

text \<open>
  The analyser returns a record whose company is the trimmed capture of the first of the
  three patterns that matches, tried in the order \<^verbatim>\<open>at\<close>, \<^verbatim>\<open>company:\<close>, \<^verbatim>\<open>about\<close>,
  whatever the later patterns would give, and the placeholder when none matches.
\<close>

lemma company_precedence:
  "\<exists>j. analyzeJobDescription t = Inr j \<and>
     (case js_match True companyAtRe t of
        Some m \<Rightarrow> (\<exists>s. capture m 1 = Some s \<and> company j = trim s)
      | None \<Rightarrow>
         (case js_match True companyLabelRe t of
            Some m \<Rightarrow> (\<exists>s. capture m 1 = Some s \<and> company j = trim s)
          | None \<Rightarrow>
             (case js_match True companyAboutRe t of
                Some m \<Rightarrow> (\<exists>s. capture m 1 = Some s \<and> company j = trim s)
              | None \<Rightarrow> company j = ''the company'')))"
proof -
  let ?cm = "or_else (js_match True companyAtRe t)
      (or_else (js_match True companyLabelRe t) (js_match True companyAboutRe t))"
  let ?rm = "or_else (js_match True rolePositionRe t)
      (or_else (js_match True roleLabelRe t)
        (or_else (js_match True roleLookingRe t) (js_match True roleSeekingRe t)))"
  have "\<exists>v. group1_or ?cm ''the company'' = Inr v"
    by (rule group1_or_total) (rule company_captured)
  then obtain co where co: "group1_or ?cm ''the company'' = Inr co" ..
  have "\<exists>v. group1_or ?rm ''the position'' = Inr v"
    by (rule group1_or_total) (rule role_captured)
  then obtain ro where ro: "group1_or ?rm ''the position'' = Inr ro" ..
  define jr where "jr = \<lparr>company = co, role = ro,
          requirements = (if buildRequirements t \<noteq> [] then buildRequirements t
                          else [''Various skills and experiences''])\<rparr>"
  have j: "analyzeJobDescription t = Inr jr"
    unfolding jr_def by (simp only: analyzeJobDescription_def Let_def co ro sum.case)
  have cj: "co = company jr"
    by (simp add: jr_def)
  have "case js_match True companyAtRe t of
        Some m \<Rightarrow> (\<exists>s. capture m 1 = Some s \<and> co = trim s)
      | None \<Rightarrow>
         (case js_match True companyLabelRe t of
            Some m \<Rightarrow> (\<exists>s. capture m 1 = Some s \<and> co = trim s)
          | None \<Rightarrow>
             (case js_match True companyAboutRe t of
                Some m \<Rightarrow> (\<exists>s. capture m 1 = Some s \<and> co = trim s)
              | None \<Rightarrow> co = ''the company''))"
    using co by (auto simp add: or_else_def group1_or_def split: option.splits)
  then have "case js_match True companyAtRe t of
        Some m \<Rightarrow> (\<exists>s. capture m 1 = Some s \<and> company jr = trim s)
      | None \<Rightarrow>
         (case js_match True companyLabelRe t of
            Some m \<Rightarrow> (\<exists>s. capture m 1 = Some s \<and> company jr = trim s)
          | None \<Rightarrow>
             (case js_match True companyAboutRe t of
                Some m \<Rightarrow> (\<exists>s. capture m 1 = Some s \<and> company jr = trim s)
              | None \<Rightarrow> company jr = ''the company''))"
    unfolding cj .
  with j show ?thesis by blast
qed

lemma company_at_without_flag:
  "js_match False companyAtRe ''great opportunity\<newline>Company: X'' = None"
  by code_simp

lemma company_about_lowercase:
  "analyzeJobDescription ''Read more about us'' =
     Inr \<lparr>company = ''us'', role = ''the position'',
          requirements = [''Various skills and experiences'']\<rparr>"
  by code_simp

section \<open>The handlers\<close>

lemma resolve_jdText: "resolve (analyzeJdScope s) ''jdText'' = Inl ReferenceError"
  by (simp add: resolve_def analyzeJdScope_def moduleScope_def moduleNames_def)

lemma resolve_Payment: "resolve moduleScope ''Payment'' = Inl ReferenceError"
  by (simp add: resolve_def moduleScope_def moduleNames_def)

lemma analyzeJdHandler_valid:
  "20 \<le> length s \<Longrightarrow> analyzeJdHandler (Some s) w = analyzeJdFailed w"
  by (simp add: analyzeJdHandler_def isLength_def resolve_jdText)

lemma analyzeJdHandler_invalid:
  "\<not> isLength 20 field \<Longrightarrow> analyzeJdHandler field w =
     (Failure 400 ''Invalid job description'' ''Job description must be at least 20 characters long'',
      logger ''warn'' ''Invalid job description'' w)"
  by (simp add: analyzeJdHandler_def)

lemma analyzeJdHandler_no_success: "fst (analyzeJdHandler field w) \<noteq> Success j"
  by (simp add: analyzeJdHandler_def resolve_jdText analyzeJdFailed_def Let_def)

text \<open>
  C2. The claim: a request to \<^verbatim>\<open>/analyze-jd\<close> whose \<^verbatim>\<open>jobDescription\<close> has at least 20
  characters gets a success response with the job record of that description. The handler
  passes the unbound identifier \<^verbatim>\<open>jdText\<close> to the analyser, so for the 36 characters
  below (and, by \<open>analyzeJdHandler_valid\<close>, for every description that passes the length
  check) it answers with status 500.
\<close>

theorem analyzeJd_valid_request_fails:
  "analyzeJdHandler (Some ''We need a Python developer with AWS.'') \<lparr>logged = [], fetched = []\<rparr> =
     (Failure 500 ''Error analyzing job description'' ''Could not process the job description'',
      \<lparr>logged = [(''error'', ''JD analysis error:'')], fetched = []\<rparr>)"
  by (simp add: analyzeJdHandler_valid analyzeJdFailed_def logger_def)

text \<open>
  C10. When the body field \<^verbatim>\<open>promoCode\<close> is the string \<^verbatim>\<open>070605\<close>, the payment
  middleware passes control on: whatever the payment id, the other fields of the request
  and the behaviour of the gateway, it calls \<^verbatim>\<open>next()\<close>, asks the gateway for nothing and
  sends no response; it only writes one log entry.
\<close>

theorem verifyPayment_promo_code:
  assumes "promoCode req = JSString ''070605''"
  shows "fst (verifyPayment gateway req w) = Next
    \<and> fetched (snd (verifyPayment gateway req w)) = fetched w
    \<and> logged (snd (verifyPayment gateway req w)) =
        logged w @ [(''info'', ''Promo code used for free access'')]"
  using assms by (simp add: verifyPayment_def logger_def)

theorem verifyPayment_promo_code_witness:
  "promoCode \<lparr>paymentId = JSUndefined, promoCode = JSString ''070605'', resumeEmail = JSNull\<rparr>
      = JSString ''070605''
   \<and> fst (verifyPayment (\<lambda>p. Inl TypeError)
        \<lparr>paymentId = JSUndefined, promoCode = JSString ''070605'', resumeEmail = JSNull\<rparr>
        \<lparr>logged = [], fetched = []\<rparr>) = Next
   \<and> fetched (snd (verifyPayment (\<lambda>p. Inl TypeError)
        \<lparr>paymentId = JSUndefined, promoCode = JSString ''070605'', resumeEmail = JSNull\<rparr>
        \<lparr>logged = [], fetched = []\<rparr>)) = []"
  using verifyPayment_promo_code [of "\<lparr>paymentId = JSUndefined, promoCode = JSString ''070605'',
      resumeEmail = JSNull\<rparr>" "\<lambda>p. Inl TypeError" "\<lparr>logged = [], fetched = []\<rparr>"]
  by simp

section \<open>The extractors\<close>

text \<open>
  C8. Both extractors are deterministic and depend on no hidden or shared mutable state.
  With the store of RegExp objects passed along: the result of an extractor on a text is
  the value of the definition without store that the other properties are about; it is the
  same from any two stores; calling the extractor again, on the store that the first call
  left, gives the same result; and the objects that were in the store before the call are
  in it unchanged after the call, which only adds the objects of its own literals. A
  search does read the store (\<open>match_st_reads_store\<close>): the results do not depend on it
  because every reference an extractor uses is the one of a literal it has just evaluated.
\<close>

theorem extractors_independent_of_store:
  "fst (extractResumeData_st text st) = extractResumeData text
   \<and> fst (extractResumeData_st text st) = fst (extractResumeData_st text st')
   \<and> fst (extractResumeData_st text (snd (extractResumeData_st text st))) = fst (extractResumeData_st text st)
   \<and> take (length st) (snd (extractResumeData_st text st)) = st
   \<and> fst (analyzeJobDescription_st text st) = analyzeJobDescription text
   \<and> fst (analyzeJobDescription_st text st) = fst (analyzeJobDescription_st text st')
   \<and> fst (analyzeJobDescription_st text (snd (analyzeJobDescription_st text st))) = fst (analyzeJobDescription_st text st)
   \<and> take (length st) (snd (analyzeJobDescription_st text st)) = st"
proof -
  have r: "\<exists>news. extractResumeData_st text s = (extractResumeData text, s @ news)" for s
    by (rule returnsD) (rule extractResumeData_st_returns)
  have a: "\<exists>news. analyzeJobDescription_st text s = (analyzeJobDescription text, s @ news)" for s
    by (rule returnsD) (rule analyzeJobDescription_st_returns)
  have r1: "fst (extractResumeData_st text s) = extractResumeData text" for s
    using r[of s] by auto
  have a1: "fst (analyzeJobDescription_st text s) = analyzeJobDescription text" for s
    using a[of s] by auto
  have r2: "take (length st) (snd (extractResumeData_st text st)) = st"
    using r[of st] by auto
  have a2: "take (length st) (snd (analyzeJobDescription_st text st)) = st"
    using a[of st] by auto
  show ?thesis
    by (simp only: r1 a1 r2 a2 simp_thms)
qed

text \<open>
  C7. For every job description the analyser returns a record whose requirement list is
  made of the entries of the checks whose substring the text contains, in the fixed order
  of the checks (the five phrases, then the keywords), so it is a subsequence of the fixed
  list of entries whatever the positions of the substrings in the text; when the text
  contains none of the substrings the list is the one placeholder.
\<close>

theorem requirements_fixed_order:
  "\<exists>j. analyzeJobDescription t = Inr j
     \<and> requirements j =
         (if map snd (filter (\<lambda>(key, item). js_includes t key) requirementChecks) = []
          then [''Various skills and experiences'']
          else map snd (filter (\<lambda>(key, item). js_includes t key) requirementChecks))
     \<and> subseq (map snd (filter (\<lambda>(key, item). js_includes t key) requirementChecks))
          (map snd requirementChecks)"
proof -
  obtain co ro where "analyzeJobDescription t =
     Inr \<lparr>company = co, role = ro,
          requirements = (if buildRequirements t \<noteq> [] then buildRequirements t
                          else [''Various skills and experiences''])\<rparr>"
    using analyzeJobDescription_total by blast
  moreover have "subseq (map snd (filter (\<lambda>(key, item). js_includes t key) requirementChecks))
          (map snd requirementChecks)"
    by (intro subseq_map subseq_filter_left)
  ultimately show ?thesis
    by (simp add: buildRequirements_eq)
qed

theorem requirements_fixed_order_witness:
  "\<exists>j. analyzeJobDescription ''Docker, AWS, some experience'' = Inr j
     \<and> requirements j = [''X years of experience'', ''AWS'', ''Docker'']"
  using requirements_fixed_order [of "''Docker, AWS, some experience''"]
  by (simp add: requirementChecks_def skillKeywords_def)

lemma blank_role_result:
  "analyzeJobDescription ''role: '' =
   Inr \<lparr>company = ''the company'', role = [],
        requirements = [''Various skills and experiences'']\<rparr>"
  by code_simp

text \<open>
  C1. The claim: for every input, the empty and the blank ones included, both extractors
  return a fully populated record and raise nothing. On the empty text and on a text of
  white space only, no line is left after the blank lines are dropped, and
  \<^verbatim>\<open>lines[0].trim()\<close> raises a \<^verbatim>\<open>TypeError\<close>. By \<open>extractResumeData_raises_iff\<close>
  these are the only texts on which the resume extractor raises, and by
  \<open>analyzeJobDescription_total\<close> the analyser of job descriptions never does; by
  \<open>blank_role_result\<close> a label followed by blanks only gives it an empty role.
\<close>

theorem extractResumeData_empty_raises:
  "extractResumeData [] = Inl TypeError \<and> extractResumeData '' \<newline>  '' = Inl TypeError"
  by (simp add: extractResumeData_def trim_def isWhiteSpace_def)

lemma jd_example_result:
  "analyzeJobDescription
     ''We are looking for a Backend Engineer at Acme Corp. Must have experience with Docker and AWS.'' =
   Inr \<lparr>company = ''Acme Corp'',
        role = ''Backend Engineer at Acme Corp. Must have experience with Docker and AWS.'',
        requirements = [''X years of experience'', ''AWS'', ''Docker'']\<rparr>"
  by code_simp

text \<open>
  C3. The claim: on the example job text the role is \<^verbatim>\<open>Backend Engineer\<close>. The pattern
  \<^verbatim>\<open>/looking for a\s+([^\n]+)/i\<close> captures the rest of the line, so the role is not
  that.
\<close>

theorem jd_example_role_counterexample:
  "map_sum id role (analyzeJobDescription
     ''We are looking for a Backend Engineer at Acme Corp. Must have experience with Docker and AWS.'')
   \<noteq> Inr ''Backend Engineer''"
  by (simp add: jd_example_result)

text \<open>
  C3, as amended. On the example job text the company is \<^verbatim>\<open>Acme Corp\<close> (the capture of
  the pattern with \<^verbatim>\<open>at\<close>, which stops before the full stop), the role is the whole rest
  of the line after \<^verbatim>\<open>looking for a\<close>, and the requirements are the entry for
  \<^verbatim>\<open>experience\<close> followed by the keywords \<^verbatim>\<open>AWS\<close> and \<^verbatim>\<open>Docker\<close>.
\<close>

theorem jd_example_analysis:
  "analyzeJobDescription
     ''We are looking for a Backend Engineer at Acme Corp. Must have experience with Docker and AWS.'' =
   Inr \<lparr>company = ''Acme Corp'',
        role = ''Backend Engineer at Acme Corp. Must have experience with Docker and AWS.'',
        requirements = [''X years of experience'', ''AWS'', ''Docker'']\<rparr>"
  by (rule jd_example_result)

text \<open>
  C9. The claim: when the skill tokens are all on the heading line and that line is followed
  by another heading line or by the end of the text, the skills are the one placeholder.
  Two such texts on which they are not. In the first the word \<^verbatim>\<open>skills\<close> occurs in a
  line before the heading: the pattern is not tied to the start of a line, it matches from
  that word on, and the heading line is read as a line of tokens. In the second the next
  heading has two words: the lookahead \<^verbatim>\<open>\n\w+:\<close> does not take it for a heading and the
  section runs on to the end of the text.
\<close>

theorem skills_on_heading_line_counterexample:
  "map_sum id skills (extractResumeData
      ''Jane Doe\<newline>Summary: strong communication skills\<newline>Skills: Go, Rust, Python\<newline>Education: BSc'')
     = Inr [''Skills: Go'', ''Rust'', ''Python'']
   \<and> map_sum id skills (extractResumeData
      ''Jane Doe\<newline>Skills: Go, Rust, Python\<newline>Work History:\<newline>Acme Corp 2019-2021'')
     = Inr [''Work History:'', ''Acme Corp 2019-2021'']"
  by code_simp

text \<open>
  C9, as amended. The first line of the matched skills section is dropped with everything
  on it. When the first place of the text at which a heading of the skills pattern occurs
  (\<^verbatim>\<open>skills\<close>, \<^verbatim>\<open>technical skills\<close> or \<^verbatim>\<open>key skills\<close>, in any case of the letters) holds
  the heading followed by a colon, by white space without a line break and by tokens up to
  the end of the line, and the line is followed by the end of the text or by a line that
  starts with word characters and a colon, then the match ends with the heading line, no
  line is left after it is dropped, and the skills field is the one placeholder.
\<close>

theorem skills_on_heading_line_dropped:
  assumes "text = pre @ h @ '':'' @ ws @ toks @ follow"
    and "isHeading skillsHeadings h"
    and "noHeadingBefore skillsHeadings text (length pre)"
    and "list_all isWhiteSpace ws" and "CHR 0x0A \<notin> set ws"
    and "toks \<noteq> []" and "\<not> isWhiteSpace (hd toks)" and "CHR 0x0A \<notin> set toks"
    and "follow = [] \<or> (\<exists>w rest. follow = CHR 0x0A # w @ CHR '':'' # rest \<and> w \<noteq> [] \<and> list_all isWordChar w)"
  shows "\<exists>r. extractResumeData text = Inr r \<and> skills r = [''Various professional skills'']"
proof -
  obtain m where m: "js_match True skillsRe text = Some m" "matched m = h @ '':'' @ ws @ toks"
    using skills_match_at_any_heading[OF assms(1,2,3,4,6,7,8,9)] by blast
  have "CHR 0x0A \<notin> set (map toUpper h)"
    using assms(2) by (cases rule: heading_cases) simp_all
  moreover have "toUpper CHR 0x0A = CHR 0x0A"
    by (simp add: toUpper_newline)
  ultimately have "CHR 0x0A \<notin> set h"
    by (metis image_eqI list.set_map)
  then have "CHR 0x0A \<notin> set (matched m)"
    using assms(5,8) by (simp add: m(2))
  then have "sectionLines m = []"
    by (simp add: sectionLines_def split_on_no_sep)
  moreover have "text = (pre @ h @ '':'' @ ws) @ toks @ follow"
    using assms(1) by simp
  then have "\<not> list_all isWhiteSpace text"
    using assms(6,7) by (rule text_with_token_not_blank)
  ultimately show ?thesis
    using extractResumeData_fields[of "text"] by (auto simp add: m(1))
qed

theorem skills_on_heading_line_dropped_witness:
  "\<exists>r. extractResumeData ''Jane Doe\<newline>Skills: Go, Rust, Python\<newline>Education: BSc'' = Inr r
     \<and> skills r = [''Various professional skills'']"
proof -
  have 1: "''Jane Doe\<newline>Skills: Go, Rust, Python\<newline>Education: BSc'' =
      ''Jane Doe\<newline>'' @ ''Skills'' @ '':'' @ '' '' @ ''Go, Rust, Python'' @ (CHR 0x0A # ''Education'' @ CHR '':'' # '' BSc'')"
    by simp
  have h: "isHeading skillsHeadings ''Skills''"
    by code_simp
  have h2: "noHeadingBefore skillsHeadings ''Jane Doe\<newline>Skills: Go, Rust, Python\<newline>Education: BSc''
      (length ''Jane Doe\<newline>'')"
    by code_simp
  have 3: "list_all isWhiteSpace '' ''" "CHR 0x0A \<notin> set '' ''"
    by (simp_all add: isWhiteSpace_def)
  have 4: "''Go, Rust, Python'' \<noteq> []" "\<not> isWhiteSpace (hd ''Go, Rust, Python'')"
      "CHR 0x0A \<notin> set ''Go, Rust, Python''"
    by (simp_all add: isWhiteSpace_def)
  have w: "list_all isWordChar ''Education''"
    by code_simp
  have 5: "CHR 0x0A # ''Education'' @ CHR '':'' # '' BSc'' = [] \<or>
      (\<exists>w rest. CHR 0x0A # ''Education'' @ CHR '':'' # '' BSc'' = CHR 0x0A # w @ CHR '':'' # rest
         \<and> w \<noteq> [] \<and> list_all isWordChar w)"
    using w by blast
  show ?thesis
    by (rule skills_on_heading_line_dropped [OF 1 h h2 3 4 5])
qed

text \<open>
  C4. The claim: a skills heading, the content line \<^verbatim>\<open>Go, Rust; Python\<close> and a new heading
  line give the three skills \<^verbatim>\<open>Go\<close>, \<^verbatim>\<open>Rust\<close>, \<^verbatim>\<open>Python\<close>. The extractor keeps a
  token only when its trimmed length exceeds 2, so \<^verbatim>\<open>Go\<close> is not kept.
\<close>

theorem skills_go_rust_python_counterexample:
  "map_sum id skills (extractResumeData
     ''Jane Doe\<newline>Skills:\<newline>Go, Rust; Python\<newline>Education:\<newline>BSc in Computer Science'')
   \<noteq> Inr [''Go'', ''Rust'', ''Python'']"
  by (simp add: resume_example_result)

text \<open>
  C4, as amended. When the first skills heading of the text is the line \<^verbatim>\<open>Skills:\<close>,
  followed by the content line \<^verbatim>\<open>Go, Rust; Python\<close> and then by a heading line (word
  characters and a colon), the skills are \<^verbatim>\<open>Rust\<close> and \<^verbatim>\<open>Python\<close>, trimmed and in
  that order; \<^verbatim>\<open>Go\<close> is dropped because its length is not above 2.
\<close>

theorem skills_go_rust_python:
  assumes "text = pre @ ''Skills:'' @ [CHR 0x0A] @ ''Go, Rust; Python'' @ [CHR 0x0A] @ w @ '':'' @ rest"
    and "noHeadingBefore skillsHeadings text (length pre)"
    and "w \<noteq> []" and "list_all isWordChar w"
  shows "\<exists>r. extractResumeData text = Inr r \<and> skills r = [''Rust'', ''Python'']"
proof -
  have t: "text = pre @ ''Skills:'' @ [CHR 0x0A] @ ''Go, Rust; Python'' @ (CHR 0x0A # w @ CHR '':'' # rest)"
    by (simp add: assms(1))
  have ws: "list_all isWhiteSpace [CHR 0x0A]"
    by (simp add: isWhiteSpace_def)
  have toks: "''Go, Rust; Python'' \<noteq> []" "\<not> isWhiteSpace (hd ''Go, Rust; Python'')"
      "CHR 0x0A \<notin> set ''Go, Rust; Python''"
    by (simp_all add: isWhiteSpace_def)
  have follow: "CHR 0x0A # w @ CHR '':'' # rest = [] \<or>
      (\<exists>w' rest'. CHR 0x0A # w @ CHR '':'' # rest = CHR 0x0A # w' @ CHR '':'' # rest' \<and> w' \<noteq> [] \<and> list_all isWordChar w')"
    using assms(3,4) by blast
  obtain m where m: "js_match True skillsRe text = Some m"
      "matched m = ''Skills:'' @ [CHR 0x0A] @ ''Go, Rust; Python''"
    using skills_match_at_heading[OF t assms(2) ws toks follow] by blast
  have "split_on CHR 0x0A (matched m) = [''Skills:'', ''Go, Rust; Python'']"
    unfolding m(2) by simp
  then have "sectionLines m = [''Go, Rust; Python'']"
    by (simp add: sectionLines_def)
  then have sk: "map trim (filter (\<lambda>skill. trim skill \<noteq> [] \<and> length (trim skill) > 2)
        (concat (map (split_re sepRe) (sectionLines m)))) = [''Rust'', ''Python'']"
    by (simp only: list.map concat.simps append_Nil2 split_go_rust_python keep_rust_python)
  have "\<not> list_all isWhiteSpace text"
    using t by (rule text_not_blank)
  then obtain r where r: "extractResumeData text = Inr r"
      "skills r = (let sk = (case js_match True skillsRe text of
                     Some m \<Rightarrow> map trim (filter (\<lambda>skill. trim skill \<noteq> [] \<and> length (trim skill) > 2)
                                 (concat (map (split_re sepRe) (sectionLines m))))
                   | None \<Rightarrow> [])
         in if sk \<noteq> [] then sk else [''Various professional skills''])"
    using extractResumeData_fields[of "text"] by blast
  have "skills r = [''Rust'', ''Python'']"
    unfolding r(2) m(1) option.case sk Let_def by simp
  with r(1) show ?thesis by blast
qed

theorem skills_go_rust_python_witness:
  "\<exists>r. extractResumeData
        ''Jane Doe\<newline>Skills:\<newline>Go, Rust; Python\<newline>Education:\<newline>BSc in Computer Science'' = Inr r
     \<and> skills r = [''Rust'', ''Python'']"
proof -
  have 1: "''Jane Doe\<newline>Skills:\<newline>Go, Rust; Python\<newline>Education:\<newline>BSc in Computer Science'' =
      ''Jane Doe\<newline>'' @ ''Skills:'' @ [CHR 0x0A] @ ''Go, Rust; Python'' @ [CHR 0x0A] @ ''Education'' @ '':''
        @ ''\<newline>BSc in Computer Science''"
    by simp
  have h2: "noHeadingBefore skillsHeadings
      ''Jane Doe\<newline>Skills:\<newline>Go, Rust; Python\<newline>Education:\<newline>BSc in Computer Science''
      (length ''Jane Doe\<newline>'')"
    by code_simp
  have 3: "''Education'' \<noteq> []" by simp
  have 4: "list_all isWordChar ''Education''" by code_simp
  show ?thesis
    by (rule skills_go_rust_python [OF 1 h2 3 4])
qed

text \<open>
  C6. The claim: the company comes from the first of three patterns that matches, the
  first being \<^verbatim>\<open>at\<close> followed by a capitalized phrase, the second \<^verbatim>\<open>company:\<close> followed
  by the rest of the line. The order of the patterns, the trimming and the placeholder are
  as claimed (\<open>company_precedence\<close>). The first and the third pattern write the class
  \<^verbatim>\<open>[A-Z]\<close> for the first code unit of the phrase and \<^verbatim>\<open>[a-zA-Z0-9\s-]\<close> for the others,
  but carry the flag \<^verbatim>\<open>i\<close>, which the keyword needs and under which \<^verbatim>\<open>[A-Z]\<close> accepts
  the lower-case letters too. In the text below \<^verbatim>\<open>at\<close> ends the word \<^verbatim>\<open>great\<close> and the
  lower-case word \<^verbatim>\<open>opportunity\<close> follows: the first pattern matches and supplies the
  company, although nothing capitalized follows \<^verbatim>\<open>at\<close> and the second pattern matches
  \<^verbatim>\<open>Company: X\<close>. By \<open>company_at_without_flag\<close> the same pattern does not match
  this text when the case of the letters is respected; \<open>company_about_lowercase\<close> shows
  the third pattern taking a lower-case word in the same way.
\<close>

theorem company_lowercase_phrase:
  "analyzeJobDescription ''great opportunity\<newline>Company: X'' =
     Inr \<lparr>company = ''opportunity\<newline>Company'', role = ''the position'',
          requirements = [''Various skills and experiences'']\<rparr>
   \<and> js_match True companyLabelRe ''great opportunity\<newline>Company: X'' =
     Some \<lparr>matched = ''Company: X'', captures = [(1, ''X'')]\<rparr>"
  by code_simp

text \<open>
  C5. The claim: when the text contains a substring of the shape of an email, the email
  field is the first such substring. The pattern of the source is enclosed in \<^verbatim>\<open>\b\<close>: in
  \<^verbatim>\<open>a@b.com1\<close> the substring \<^verbatim>\<open>a@b.com\<close> has the shape, but it is followed by a word
  character, no boundary ends it, and the email field is empty.
\<close>

theorem email_substring_counterexample:
  "emailShape isLetter ''a@b.com'' \<and> take 7 (drop 0 ''a@b.com1'') = ''a@b.com''
   \<and> map_sum id email (extractResumeData ''a@b.com1'') = Inr []"
  using email_example_shape by (simp add: email_example_result)

text \<open>
  C5, as amended. For a text without a bar on which the extractor returns a record: when
  some substring has the shape of an email (top-level part of letters) and is delimited by
  word boundaries on both sides, the email field is such a substring, the one that starts
  at the least index at which one starts and is the longest of those that start there; when
  there is none, the email field is empty.
\<close>

theorem email_leftmost_delimited_match:
  assumes "CHR ''|'' \<notin> set text" and "extractResumeData text = Inr r"
  shows "if \<exists>i n. emailAt isLetter text i n
         then \<exists>i n. emailAt isLetter text i n \<and> email r = take n (drop i text)
                \<and> (\<forall>j<i. \<forall>k. \<not> emailAt isLetter text j k)
                \<and> (\<forall>k. emailAt isLetter text i k \<longrightarrow> k \<le> n)
         else email r = []"
proof -
  note nb = emailAt_no_bar[OF assms(1)]
  note ef = email_field[OF assms(2)]
  from email_match_cases[of "text"] show ?thesis
  proof (elim disjE conjE)
    assume "\<exists>i n m. js_match False emailRe text = Some m \<and> emailAt tldClassChar text i n
        \<and> matched m = take n (drop i text) \<and> (\<forall>j<i. \<forall>k. \<not> emailAt tldClassChar text j k)
        \<and> (\<forall>k. emailAt tldClassChar text i k \<longrightarrow> k \<le> n)"
    then obtain i n m where a: "js_match False emailRe text = Some m" "emailAt isLetter text i n"
        "matched m = take n (drop i text)" "\<forall>j<i. \<forall>k. \<not> emailAt isLetter text j k"
        "\<forall>k. emailAt isLetter text i k \<longrightarrow> k \<le> n"
      unfolding nb by blast
    have e: "email r = take n (drop i text)"
      by (simp add: ef a(1,3))
    have c: "\<exists>i n. emailAt isLetter text i n"
      using a(2) by blast
    have "\<exists>i n. emailAt isLetter text i n \<and> email r = take n (drop i text)
                \<and> (\<forall>j<i. \<forall>k. \<not> emailAt isLetter text j k)
                \<and> (\<forall>k. emailAt isLetter text i k \<longrightarrow> k \<le> n)"
      using a(2,4,5) e by blast
    then show ?thesis
      by (simp only: c if_True)
  next
    assume n: "\<nexists>i n. emailAt tldClassChar text i n" and "js_match False emailRe text = None"
    then have "email r = []"
      by (simp add: ef)
    moreover have "\<not> (\<exists>i n. emailAt isLetter text i n)"
      using n unfolding nb .
    ultimately show ?thesis
      by (simp only: if_False)
  qed
qed

theorem email_leftmost_delimited_match_witness:
  "CHR ''|'' \<notin> set ''Mail jane@x.org now''
   \<and> (\<exists>i n. emailAt isLetter ''Mail jane@x.org now'' i n
         \<and> ''jane@x.org'' = take n (drop i ''Mail jane@x.org now'')
         \<and> (\<forall>j<i. \<forall>k. \<not> emailAt isLetter ''Mail jane@x.org now'' j k)
         \<and> (\<forall>k. emailAt isLetter ''Mail jane@x.org now'' i k \<longrightarrow> k \<le> n))"
proof -
  have nb: "CHR ''|'' \<notin> set ''Mail jane@x.org now''"
    by simp
  have ex: "\<exists>i n. emailAt isLetter ''Mail jane@x.org now'' i n"
    using email_witness_at by blast
  from email_leftmost_delimited_match [OF nb email_witness_result]
  have "\<exists>i n. emailAt isLetter ''Mail jane@x.org now'' i n
         \<and> ''jane@x.org'' = take n (drop i ''Mail jane@x.org now'')
         \<and> (\<forall>j<i. \<forall>k. \<not> emailAt isLetter ''Mail jane@x.org now'' j k)
         \<and> (\<forall>k. emailAt isLetter ''Mail jane@x.org now'' i k \<longrightarrow> k \<le> n)"
    by (simp only: ex if_True resume.simps)
  with nb show ?thesis by blast
qed

end
